theory Spec2Isabelle
  imports Main
begin

section \<open>Task records\<close>

text \<open>
  A task as the specification's data model gives it: \<open>id\<close>, \<open>status\<close>, \<open>payload\<close>,
  \<open>createdAt\<close> and \<open>resolvedBy\<close> (\<open>null\<close> until resolution). The field \<open>id\<close> is named
  \<open>task_id\<close> here, since \<open>id\<close> is the identity function of HOL. Identifiers are opaque;
  the store below allocates them from a counter.
\<close>

datatype status = Pending | Approved | Rejected | Done

datatype decision = Approve | Reject

record task =
  task_id :: nat
  status :: status
  payload :: string
  createdAt :: nat
  resolvedBy :: "string option"

section \<open>Task store\<close>

text \<open>
  Modelled from the spec: the server-side task store (\<open>createTask\<close>, \<open>resolveTask\<close>,
  \<open>markDone\<close>) is not among the source files; the definitions of this section follow
  section 4.1 of the specification word by word. The store is the canonical mapping from
  task identifier to task record, the creation order, the next free identifier and the
  shut-down flag that \<open>createTask\<close> tests.
\<close>

record store =
  store_tasks :: "nat \<rightharpoonup> task"
  store_order :: "nat list"
  next_id :: nat
  shut_down :: bool

datatype store_error = StoreShutDown | NotFound | AlreadyResolved task | InvalidTransition

definition empty_store :: store where
  "empty_store = \<lparr>store_tasks = Map.empty, store_order = [], next_id = 0, shut_down = False\<rparr>"

text \<open>Modelled from the spec: the status a decision stands for.\<close>

fun decision_status :: "decision \<Rightarrow> status" where
  "decision_status Approve = Approved"
| "decision_status Reject = Rejected"

text \<open>
  Modelled from the spec: \<open>createTask(payload)\<close> allocates a new identifier, sets status
  \<open>pending\<close> and \<open>resolvedBy = null\<close>, records \<open>createdAt\<close>, and fails only if the store
  is shut down. The clock reading is the argument \<open>now\<close>.
\<close>

definition createTask :: "string \<Rightarrow> nat \<Rightarrow> store \<Rightarrow> (store_error + task) \<times> store" where
  "createTask p now s =
     (if shut_down s then (Inl StoreShutDown, s)
      else
        let t = \<lparr>task_id = next_id s, status = Pending, payload = p, createdAt = now,
                 resolvedBy = None\<rparr>
        in (Inr t, s\<lparr>store_tasks := (store_tasks s)(next_id s \<mapsto> t),
                      store_order := store_order s @ [next_id s],
                      next_id := Suc (next_id s)\<rparr>))"

text \<open>
  Modelled from the spec: \<open>resolveTask(id, decision, clientId)\<close> fails with \<open>NotFound\<close>
  for an unknown id, fails with \<open>AlreadyResolved\<close> and the current record when the task
  is not \<open>pending\<close>, and otherwise sets \<open>status = decision\<close> and \<open>resolvedBy = clientId\<close>.
\<close>

definition resolveTask :: "nat \<Rightarrow> decision \<Rightarrow> string \<Rightarrow> store \<Rightarrow> (store_error + task) \<times> store" where
  "resolveTask i d c s =
     (case store_tasks s i of
        None \<Rightarrow> (Inl NotFound, s)
      | Some t \<Rightarrow>
          if status t \<noteq> Pending then (Inl (AlreadyResolved t), s)
          else
            let t' = t\<lparr>status := decision_status d, resolvedBy := Some c\<rparr>
            in (Inr t', s\<lparr>store_tasks := (store_tasks s)(i \<mapsto> t')\<rparr>))"

text \<open>
  Modelled from the spec: \<open>markDone(id)\<close> requires status \<open>approved\<close>, moves the task to
  \<open>done\<close>, and fails with \<open>InvalidTransition\<close> otherwise (\<open>NotFound\<close> for an unknown id).
\<close>

definition markDone :: "nat \<Rightarrow> store \<Rightarrow> (store_error + task) \<times> store" where
  "markDone i s =
     (case store_tasks s i of
        None \<Rightarrow> (Inl NotFound, s)
      | Some t \<Rightarrow>
          if status t \<noteq> Approved then (Inl InvalidTransition, s)
          else
            let t' = t\<lparr>status := Done\<rparr>
            in (Inr t', s\<lparr>store_tasks := (store_tasks s)(i \<mapsto> t')\<rparr>))"

text \<open>The three mutating entry points as calls, and the store after a call or a sequence of calls.\<close>

datatype call = CreateTask string nat | ResolveTask nat decision string | MarkDone nat

fun apply_call :: "call \<Rightarrow> store \<Rightarrow> store" where
  "apply_call (CreateTask p now) s = snd (createTask p now s)"
| "apply_call (ResolveTask i d c) s = snd (resolveTask i d c s)"
| "apply_call (MarkDone i) s = snd (markDone i s)"

fun run_calls :: "call list \<Rightarrow> store \<Rightarrow> store" where
  "run_calls [] s = s"
| "run_calls (c # cs) s = run_calls cs (apply_call c s)"

inductive reachable :: "store \<Rightarrow> bool" where
  reachable_empty: "reachable empty_store"
| reachable_call: "reachable s \<Longrightarrow> reachable (apply_call c s)"

text \<open>
  The order of statuses: \<open>forward a b\<close> holds when \<open>b\<close> is \<open>a\<close> or lies after it on
  \<open>pending \<rightarrow> approved \<rightarrow> done\<close> or \<open>pending \<rightarrow> rejected\<close>; \<open>one_step a b\<close> is a single arrow.
\<close>

fun one_step :: "status \<Rightarrow> status \<Rightarrow> bool" where
  "one_step Pending b = (b = Approved \<or> b = Rejected)"
| "one_step Approved b = (b = Done)"
| "one_step Rejected b = False"
| "one_step Done b = False"

fun forward :: "status \<Rightarrow> status \<Rightarrow> bool" where
  "forward Pending b = True"
| "forward Approved b = (b = Approved \<or> b = Done)"
| "forward Rejected b = (b = Rejected)"
| "forward Done b = (b = Done)"

section \<open>Client state cache\<close>

text \<open>
  The browser-side state read by \<open>getState\<close>: the \<open>tasks\<close> array and the
  \<open>roomMessages\<close> array (a room message carries \<open>sender\<close>, \<open>text\<close>, \<open>ts\<close>).
\<close>

record room_message =
  sender :: string
  text_of :: string
  ts :: nat

record client_state =
  tasks :: "task list"
  roomMessages :: "room_message list"

text \<open>
  Modelled from the spec: \<open>updateInArray\<close> and \<open>appendState\<close> of \<open>client/lib/state.js\<close>
  are not among the source files. Following section 4.4 of the specification,
  \<open>updateInArray(key, id, record)\<close> replaces the record stored under that id and
  \<open>appendState(key, record)\<close> inserts the record at the end of the array.
\<close>

definition updateInArray :: "task list \<Rightarrow> nat \<Rightarrow> task \<Rightarrow> task list" where
  "updateInArray arr i u = map (\<lambda>t. if task_id t = i then u else t) arr"

definition appendState :: "'a list \<Rightarrow> 'a \<Rightarrow> 'a list" where
  "appendState arr x = arr @ [x]"

text \<open>
  \<open>handleTaskUpdate(msg)\<close> of \<open>client/panels/task-queue.js\<close>: \<open>tasks.find\<close> looks for a
  task with the id of \<open>msg.task\<close>; a found task (an object, hence truthy) selects
  \<open>updateInArray\<close>, otherwise \<open>appendState\<close>. The argument is \<open>msg.task\<close>.
\<close>

definition handleTaskUpdate :: "task \<Rightarrow> client_state \<Rightarrow> client_state" where
  "handleTaskUpdate mt st =
     (case find (\<lambda>t. task_id t = task_id mt) (tasks st) of
        Some existing \<Rightarrow> st\<lparr>tasks := updateInArray (tasks st) (task_id mt) mt\<rparr>
      | None \<Rightarrow> st\<lparr>tasks := appendState (tasks st) mt\<rparr>)"

section \<open>JavaScript strings and objects\<close>

text \<open>
  A JavaScript string is a sequence of UTF-16 code units, and \<open>length\<close>, \<open>slice\<close> and
  \<open>indexOf\<close> count code units. The model writes a string as a \<^typ>\<open>string\<close>, one
  \<^typ>\<open>char\<close> for one code unit (those below 256). \<open>is_ws\<close> holds for the code units in
  that range that \<open>String.prototype.trim\<close> removes: tab, line feed, vertical tab, form
  feed, carriage return, space and no-break space.
\<close>

abbreviation NL :: char where
  "NL \<equiv> CHR 0x0A"

definition is_ws :: "char \<Rightarrow> bool" where
  "is_ws c = (c \<in> {CHR 0x09, CHR 0x0A, CHR 0x0B, CHR 0x0C, CHR 0x0D, CHR 0x20, CHR 0xA0})"

definition trim :: "string \<Rightarrow> string" where
  "trim s = rev (dropWhile is_ws (rev (dropWhile is_ws s)))"

text \<open>\<open>s.split(d)\<close> for a one-character separator: the empty string gives one empty piece.\<close>

fun split :: "char \<Rightarrow> string \<Rightarrow> string list" where
  "split d [] = [[]]"
| "split d (c # cs) =
     (if c = d then [] # split d cs
      else (case split d cs of [] \<Rightarrow> [[c]] | l # ls \<Rightarrow> (c # l) # ls))"

fun join :: "char \<Rightarrow> string list \<Rightarrow> string" where
  "join d [] = []"
| "join d [l] = l"
| "join d (l # m # ls) = l @ d # join d (m # ls)"

text \<open>\<open>s.indexOf(c)\<close>, with \<open>None\<close> for \<open>-1\<close>.\<close>

fun indexOf :: "char \<Rightarrow> string \<Rightarrow> nat option" where
  "indexOf c [] = None"
| "indexOf c (x # xs) = (if x = c then Some 0 else map_option Suc (indexOf c xs))"

definition startsWith :: "string \<Rightarrow> string \<Rightarrow> bool" where
  "startsWith s p = (take (length p) s = p)"

text \<open>
  \<open>s.replace(/\n*$/, '\n')\<close>: the first match of the pattern is the longest run of line
  feeds that ends the string (possibly empty), and it is replaced by one line feed.
\<close>

definition replace_trailing_newlines :: "string \<Rightarrow> string" where
  "replace_trailing_newlines s = rev (dropWhile (\<lambda>c. c = NL) (rev s)) @ [NL]"

text \<open>
  An object literal with string values: its own properties in insertion order. Assigning
  to a present key keeps the key's position. The operator \<open>in\<close> also finds the properties
  inherited from \<open>Object.prototype\<close>, whose names are listed; reading such a property
  inside a template literal gives the text of the inherited value, which the runtime
  chooses: it is the parameter \<open>inh\<close> of \<open>js_get\<close>.
\<close>

type_synonym obj = "(string \<times> string) list"

definition object_prototype_keys :: "string list" where
  "object_prototype_keys =
     [''constructor'', ''__defineGetter__'', ''__defineSetter__'', ''hasOwnProperty'',
      ''__lookupGetter__'', ''__lookupSetter__'', ''isPrototypeOf'', ''propertyIsEnumerable'',
      ''toString'', ''valueOf'', ''__proto__'', ''toLocaleString'']"

definition obj_set :: "string \<Rightarrow> string \<Rightarrow> obj \<Rightarrow> obj" where
  "obj_set k v ob =
     (if k \<in> fst ` set ob then map (\<lambda>(k', v'). if k' = k then (k', v) else (k', v')) ob
      else ob @ [(k, v)])"

definition js_in :: "string \<Rightarrow> obj \<Rightarrow> bool" where
  "js_in k ob = (k \<in> fst ` set ob \<or> k \<in> set object_prototype_keys)"

definition js_get :: "(string \<Rightarrow> string) \<Rightarrow> obj \<Rightarrow> string \<Rightarrow> string" where
  "js_get inh ob k = (case map_of ob k of Some v \<Rightarrow> v | None \<Rightarrow> inh k)"

text \<open>
  The text that Node's engine gives for the inherited values, for use where a concrete
  \<open>inh\<close> is wanted; every theorem below holds for any \<open>inh\<close>.
\<close>

definition node_inherited :: "string \<Rightarrow> string" where
  "node_inherited k =
     (if k = ''__proto__'' then ''[object Object]''
      else if k = ''constructor'' then ''function Object() { [native code] }''
      else ''function '' @ k @ ''() { [native code] }'')"

text \<open>
  \<open>a || b\<close> and \<open>a ?? b\<close> where \<open>a\<close> is a string or \<open>undefined\<close> (\<open>None\<close>) and \<open>b\<close> is a
  string: \<open>||\<close> passes over \<open>undefined\<close> and the empty string, \<open>??\<close> over \<open>undefined\<close> only.
\<close>

definition js_or :: "string option \<Rightarrow> string \<Rightarrow> string" where
  "js_or a b = (case a of None \<Rightarrow> b | Some v \<Rightarrow> if v = [] then b else v)"

definition js_nullish :: "string option \<Rightarrow> string \<Rightarrow> string" where
  "js_nullish a b = (case a of None \<Rightarrow> b | Some v \<Rightarrow> v)"

text \<open>
  Parsed JSON. A number is only ever tested for its type and its truthiness, so the model
  keeps an integer. An object is the list of its entries in the order of
  \<open>Object.entries\<close>; the entries of an array are its elements under their decimal indices.
\<close>

datatype json = JNull | JBool bool | JNum int | JStr string | JArr "json list"
  | JObj "(string \<times> json) list"

fun decimal :: "nat \<Rightarrow> string" where
  "decimal n =
     (if n < 10 then [''0123456789'' ! n]
      else decimal (n div 10) @ [''0123456789'' ! (n mod 10)])"

declare decimal.simps [simp del]

fun truthy :: "json \<Rightarrow> bool" where
  "truthy JNull = False"
| "truthy (JBool b) = b"
| "truthy (JNum n) = (n \<noteq> 0)"
| "truthy (JStr s) = (s \<noteq> [])"
| "truthy (JArr xs) = True"
| "truthy (JObj es) = True"

fun typeof_object :: "json \<Rightarrow> bool" where
  "typeof_object JNull = True"
| "typeof_object (JArr xs) = True"
| "typeof_object (JObj es) = True"
| "typeof_object v = False"

fun object_entries :: "json \<Rightarrow> (string \<times> json) list" where
  "object_entries (JObj es) = es"
| "object_entries (JArr xs) = zip (map decimal [0..<length xs]) xs"
| "object_entries v = []"

section \<open>Settings route\<close>

text \<open>
  \<open>SETTINGS_SCHEMA\<close> of the settings router. The \<open>options\<close> of the select field are
  display data that no handler reads; they are left out of the record.
\<close>

datatype field_type = Secret | Text | Select

record field =
  key :: string
  label :: string
  type :: field_type
  restart :: bool

definition SETTINGS_SCHEMA :: "field list" where
  "SETTINGS_SCHEMA =
     [\<lparr>key = ''ANTHROPIC_API_KEY'', label = ''Anthropic API Key'', type = Secret, restart = False\<rparr>,
      \<lparr>key = ''CLAUDE_MODEL'', label = ''Claude Model'', type = Select, restart = False\<rparr>,
      \<lparr>key = ''LIVEKIT_API_KEY'', label = ''LiveKit API Key'', type = Secret, restart = False\<rparr>,
      \<lparr>key = ''LIVEKIT_API_SECRET'', label = ''LiveKit API Secret'', type = Secret, restart = False\<rparr>,
      \<lparr>key = ''LIVEKIT_WS_URL'', label = ''LiveKit WebSocket URL'', type = Text, restart = False\<rparr>,
      \<lparr>key = ''PORT'', label = ''Server Port'', type = Text, restart = True\<rparr>]"

definition ALLOWED_KEYS :: "string set" where
  "ALLOWED_KEYS = set (map key SETTINGS_SCHEMA)"

definition maskSecret :: "string \<Rightarrow> string" where
  "maskSecret v =
     (if v = [] \<or> length v < 4 then (if v \<noteq> [] then ''****'' else [])
      else ''****'' @ drop (length v - 4) v)"

text \<open>
  The server state the handlers touch: the \<open>.env\<close> file (\<open>None\<close> when it does not exist)
  and \<open>process.env\<close>.
\<close>

record server =
  env_file :: "string option"
  process_env :: "string \<rightharpoonup> string"

definition readEnvFile :: "string option \<Rightarrow> string" where
  "readEnvFile file = (case file of None \<Rightarrow> [] | Some content \<Rightarrow> content)"

text \<open>
  The body of the loop of \<open>parseEnvValues\<close>. \<open>vals\<close> is the object \<open>values\<close>; assigning a
  string to its property \<open>__proto__\<close> reaches the inherited setter, which ignores it.
\<close>

definition parseEnvValues_line :: "(string \<rightharpoonup> string) \<Rightarrow> string \<Rightarrow> (string \<rightharpoonup> string)" where
  "parseEnvValues_line vals line =
     (let trimmed = trim line in
      if trimmed = [] \<or> startsWith trimmed ''#'' then vals
      else
        (case indexOf CHR ''='' trimmed of
           None \<Rightarrow> vals
         | Some eqIdx \<Rightarrow>
             let k = trim (take eqIdx trimmed);
                 val = trim (drop (eqIdx + 1) trimmed)
             in if k = ''__proto__'' then vals else vals(k \<mapsto> val)))"

definition parseEnvValues :: "string \<Rightarrow> (string \<rightharpoonup> string)" where
  "parseEnvValues content = foldl parseEnvValues_line Map.empty (split NL content)"

text \<open>
  The function mapped over the lines by \<open>updateEnvFile\<close>: the line it returns, and the
  key it adds to \<open>written\<close> (if any).
\<close>

definition updateEnvFile_line :: "(string \<Rightarrow> string) \<Rightarrow> obj \<Rightarrow> string \<Rightarrow> string" where
  "updateEnvFile_line inh updates line =
     (let trimmed = trim line in
      if trimmed = [] \<or> startsWith trimmed ''#'' then line
      else
        (case indexOf CHR ''='' trimmed of
           None \<Rightarrow> line
         | Some eqIdx \<Rightarrow>
             let k = trim (take eqIdx trimmed)
             in if js_in k updates then k @ ''='' @ js_get inh updates k else line))"

definition updateEnvFile_written :: "obj \<Rightarrow> string \<Rightarrow> string option" where
  "updateEnvFile_written updates line =
     (let trimmed = trim line in
      if trimmed = [] \<or> startsWith trimmed ''#'' then None
      else
        (case indexOf CHR ''='' trimmed of
           None \<Rightarrow> None
         | Some eqIdx \<Rightarrow>
             let k = trim (take eqIdx trimmed)
             in if js_in k updates then Some k else None))"

text \<open>\<open>updateEnvFile(updates)\<close>: from the file before to the content written.\<close>

definition updateEnvFile :: "(string \<Rightarrow> string) \<Rightarrow> obj \<Rightarrow> string option \<Rightarrow> string" where
  "updateEnvFile inh updates file =
     (let content = readEnvFile file;
          lines = split NL content;
          written = List.map_filter (updateEnvFile_written updates) lines;
          updated = map (updateEnvFile_line inh updates) lines;
          pushed = updated @
            map (\<lambda>(k, val). k @ ''='' @ val) (filter (\<lambda>(k, val). k \<notin> set written) updates)
      in replace_trailing_newlines (join NL pushed))"

text \<open>
  For stating what the two loops do: \<open>env_entry\<close> is the key and the value that the
  loop of \<open>parseEnvValues\<close> reads off a line (\<open>None\<close> where it reaches \<open>continue\<close>), and
  \<open>line_key\<close> the key alone, which is also the key that the callback of \<open>updateEnvFile\<close>
  reads off the line. \<open>drop_trailing_blank\<close> removes the empty lines at the end of a list
  of lines. \<open>env_key_ok\<close> holds for a key that a line \<open>key=value\<close> gives back when it is
  read: not empty, no white space at either end, no \<open>=\<close>, no line feed, not starting a
  comment, and not the name \<open>__proto__\<close>.
\<close>

definition env_entry :: "string \<Rightarrow> (string \<times> string) option" where
  "env_entry line =
     (let trimmed = trim line in
      if trimmed = [] \<or> startsWith trimmed ''#'' then None
      else
        (case indexOf CHR ''='' trimmed of
           None \<Rightarrow> None
         | Some eqIdx \<Rightarrow> Some (trim (take eqIdx trimmed), trim (drop (eqIdx + 1) trimmed))))"

definition line_key :: "string \<Rightarrow> string option" where
  "line_key line = map_option fst (env_entry line)"

definition drop_trailing_blank :: "string list \<Rightarrow> string list" where
  "drop_trailing_blank ls = rev (dropWhile (\<lambda>l. l = []) (rev ls))"

definition env_key_ok :: "string \<Rightarrow> bool" where
  "env_key_ok k =
     (k \<noteq> [] \<and> \<not> is_ws (hd k) \<and> \<not> is_ws (last k) \<and> CHR ''='' \<notin> set k \<and>
      NL \<notin> set k \<and> hd k \<noteq> CHR ''#'' \<and> k \<noteq> ''__proto__'')"

text \<open>
  The lines that the description of \<open>updateEnvFile\<close> promises, for comparison with the
  lines the function writes: \<open>spec_line\<close> replaces a line whose key is a key of the
  updates by \<open>key=value\<close> and keeps every other line, and \<open>spec_appended\<close> gives
  \<open>key=value\<close> for the keys of the updates that no line of the file has.
\<close>

definition spec_line :: "obj \<Rightarrow> string \<Rightarrow> string" where
  "spec_line updates line =
     (case line_key line of
        None \<Rightarrow> line
      | Some k \<Rightarrow> (case map_of updates k of None \<Rightarrow> line | Some v \<Rightarrow> k @ ''='' @ v))"

definition spec_appended :: "obj \<Rightarrow> string list \<Rightarrow> string list" where
  "spec_appended updates lines =
     map (\<lambda>(k, v). k @ ''='' @ v)
       (filter (\<lambda>(k, v). k \<notin> set (List.map_filter line_key lines)) updates)"

text \<open>
  The two expressions of \<open>GET /api/settings\<close> that pick the value of a field, for
  stating what the handler returns: \<open>secret_source\<close> is
  \<open>values[key] || process.env[key] || ''\<close>, the stored value that is masked, and
  \<open>plain_source\<close> is \<open>values[key] ?? process.env[key] ?? ''\<close>.
\<close>

definition secret_source :: "server \<Rightarrow> string \<Rightarrow> string" where
  "secret_source srv k =
     js_or (parseEnvValues (readEnvFile (env_file srv)) k) (js_or (process_env srv k) [])"

definition plain_source :: "server \<Rightarrow> string \<Rightarrow> string" where
  "plain_source srv k =
     js_nullish (parseEnvValues (readEnvFile (env_file srv)) k) (js_nullish (process_env srv k) [])"

text \<open>\<open>GET /api/settings\<close>: every schema field with its value.\<close>

definition router_get :: "server \<Rightarrow> (field \<times> string) list" where
  "router_get srv =
     (let envContent = readEnvFile (env_file srv);
          vals = parseEnvValues envContent
      in map (\<lambda>field.
            (field,
             if type field = Secret
             then maskSecret (js_or (vals (key field)) (js_or (process_env srv (key field)) []))
             else js_nullish (vals (key field)) (js_nullish (process_env srv (key field)) [])))
           SETTINGS_SCHEMA)"

text \<open>
  \<open>POST /api/settings\<close>. The loop carries \<open>filtered\<close>, \<open>restartNeeded\<close> and \<open>process.env\<close>.
  The answer is status 400 with an error, or \<open>{ok: true, restartNeeded}\<close>.
\<close>

datatype response = BadRequest | Saved bool

text \<open>
  \<open>process.env[key] = value\<close> hands the value to the environment of the process as a C
  string: what is stored, and read back, is the text before the first NUL code unit.
\<close>

definition env_text :: "string \<Rightarrow> string" where
  "env_text s = takeWhile (\<lambda>c. c \<noteq> CHR 0x00) s"

definition router_post_entry ::
  "obj \<times> bool \<times> (string \<rightharpoonup> string) \<Rightarrow> string \<times> json \<Rightarrow> obj \<times> bool \<times> (string \<rightharpoonup> string)" where
  "router_post_entry acc e =
     (case acc of (filtered, restartNeeded, env) \<Rightarrow>
        (case e of (k, v) \<Rightarrow>
           if k \<notin> ALLOWED_KEYS then acc
           else
             (case v of
                JStr s \<Rightarrow>
                  (obj_set k s filtered,
                   (case find (\<lambda>f. key f = k) SETTINGS_SCHEMA of
                      Some f \<Rightarrow> if restart f then True else restartNeeded
                    | None \<Rightarrow> restartNeeded),
                   env(k \<mapsto> env_text s))
              | _ \<Rightarrow> acc)))"

definition router_post :: "(string \<Rightarrow> string) \<Rightarrow> json option \<Rightarrow> server \<Rightarrow> response \<times> server" where
  "router_post inh body srv =
     (case body of
        None \<Rightarrow> (BadRequest, srv)
      | Some updates \<Rightarrow>
          if \<not> truthy updates \<or> \<not> typeof_object updates then (BadRequest, srv)
          else
            (case foldl router_post_entry ([], False, process_env srv) (object_entries updates) of
               (filtered, restartNeeded, env) \<Rightarrow>
                 if filtered \<noteq> []
                 then (Saved restartNeeded,
                       srv\<lparr>env_file := Some (updateEnvFile inh filtered (env_file srv)),
                           process_env := env\<rparr>)
                 else (Saved restartNeeded, srv\<lparr>process_env := env\<rparr>)))"

section \<open>Settings form\<close>

text \<open>
  The save handler of \<open>openSettings\<close> in \<open>client/panels/settings.js\<close>: one pass of its
  loop over the form inputs. \<open>settings\<close> is the answer of the earlier \<open>GET\<close>.
\<close>

record form_input =
  data_key :: string
  data_type :: field_type
  input_value :: string

definition save_input :: "(field \<times> string) list \<Rightarrow> obj \<Rightarrow> form_input \<Rightarrow> obj" where
  "save_input settings updates input =
     (let k = data_key input;
          ty = data_type input;
          val = trim (input_value input)
      in if ty = Secret \<and> val = [] then updates
         else if (ty = Text \<or> ty = Select) \<and>
                 val = js_or (map_option snd (find (\<lambda>s. key (fst s) = k) settings)) []
         then updates
         else obj_set k val updates)"

definition save_updates :: "(field \<times> string) list \<Rightarrow> form_input list \<Rightarrow> obj" where
  "save_updates settings inputs = foldl (save_input settings) [] inputs"

section \<open>Room relay\<close>

text \<open>
  The \<open>DataReceived\<close> handler of \<open>joinRoom\<close> in \<open>client/panels/screen-share.js\<close>. Its
  outcome is the call it makes: \<open>injectCognateMessage(text, sender)\<close>,
  \<open>appendState('roomMessages', msg)\<close>, the warning of the \<open>catch\<close> block, or nothing.
  \<open>parsed\<close> is the result of \<open>JSON.parse\<close> (\<open>None\<close> when it throws) and \<open>participant\<close> the
  identity of the sending participant (\<open>None\<close> when there is no participant).
\<close>

datatype relay = InjectCognateMessage string json | AppendRoomMessage json | Warned | Ignored

text \<open>Reading a property of a parsed value; \<open>Inl ()\<close> is the TypeError for \<open>null\<close>.\<close>

fun get_prop :: "json \<Rightarrow> string \<Rightarrow> unit + json option" where
  "get_prop JNull k = Inl ()"
| "get_prop (JObj es) k = Inr (map_of es k)"
| "get_prop v k = Inr None"

definition dataReceived :: "string \<Rightarrow> json option \<Rightarrow> string option \<Rightarrow> relay" where
  "dataReceived localIdentity parsed participant =
     (case parsed of
        None \<Rightarrow> Warned
      | Some msg \<Rightarrow>
          (case get_prop msg ''type'' of
             Inl _ \<Rightarrow> Warned
           | Inr ty \<Rightarrow>
               if ty = Some (JStr ''room:chat'') then
                 if participant \<noteq> Some localIdentity then
                   (case get_prop msg ''text'' of
                      Inl _ \<Rightarrow> Warned
                    | Inr None \<Rightarrow> AppendRoomMessage msg
                    | Inr (Some tx) \<Rightarrow>
                        if \<not> truthy tx then AppendRoomMessage msg
                        else
                          (case tx of
                             JStr s \<Rightarrow>
                               if startsWith s ''cognate:''
                               then InjectCognateMessage (drop (length ''cognate:'') s)
                                 (case get_prop msg ''sender'' of
                                    Inr (Some sd) \<Rightarrow>
                                      if truthy sd then sd
                                      else JStr (js_or participant ''unknown'')
                                  | _ \<Rightarrow> JStr (js_or participant ''unknown''))
                               else AppendRoomMessage msg
                           | _ \<Rightarrow> Warned))
                 else Ignored
               else Ignored))"

section \<open>Properties of the task store\<close>

lemma reachable_ids_below_next:
  "reachable s \<Longrightarrow> store_tasks s i = Some t \<Longrightarrow> i < next_id s"
proof (induction arbitrary: i t rule: reachable.induct)
  case reachable_empty
  then show ?case by (simp add: empty_store_def)
next
  case (reachable_call s c)
  show ?case
  proof (cases c)
    case (CreateTask p now)
    with reachable_call show ?thesis
      by (auto simp: createTask_def Let_def less_Suc_eq split: if_splits)
  next
    case (ResolveTask j d cl)
    with reachable_call show ?thesis
      by (auto simp: resolveTask_def Let_def split: option.splits if_splits)
  next
    case (MarkDone j)
    with reachable_call show ?thesis
      by (auto simp: markDone_def Let_def split: option.splits if_splits)
  qed
qed

lemma apply_call_step:
  assumes "reachable s" and "store_tasks s i = Some t"
  shows "\<exists>t'. store_tasks (apply_call c s) i = Some t' \<and>
           (status t' = status t \<or> one_step (status t) (status t'))"
proof (cases c)
  case (CreateTask p now)
  from assms have "i < next_id s" by (rule reachable_ids_below_next)
  with assms CreateTask show ?thesis
    by (auto simp: createTask_def Let_def)
next
  case (ResolveTask j d cl)
  with assms show ?thesis
    by (cases d) (auto simp: resolveTask_def Let_def split: option.splits)
next
  case (MarkDone j)
  with assms show ?thesis
    by (auto simp: markDone_def Let_def split: option.splits)
qed

lemma apply_call_fresh:
  assumes "store_tasks s j = None" and "store_tasks (apply_call c s) j = Some t'"
  shows "status t' = Pending"
proof (cases c)
  case (CreateTask p now)
  with assms show ?thesis
    by (auto simp: createTask_def Let_def split: if_splits)
next
  case (ResolveTask k d cl)
  with assms show ?thesis
    by (auto simp: resolveTask_def Let_def split: option.splits if_splits)
next
  case (MarkDone k)
  with assms show ?thesis
    by (auto simp: markDone_def Let_def split: option.splits if_splits)
qed

lemma forward_step: "forward a b \<Longrightarrow> b = c \<or> one_step b c \<Longrightarrow> forward a c"
  by (cases a; cases b; cases c) auto

lemma forward_refl: "forward a a"
  by (cases a) auto

lemma run_calls_forward:
  "reachable s \<Longrightarrow> store_tasks s i = Some t \<Longrightarrow>
   \<exists>t'. store_tasks (run_calls cs s) i = Some t' \<and> forward (status t) (status t')"
proof (induction cs arbitrary: s t)
  case Nil
  then show ?case by (simp add: forward_refl)
next
  case (Cons c cs)
  from apply_call_step [OF Cons.prems, of c] obtain u where
    u: "store_tasks (apply_call c s) i = Some u"
       "status u = status t \<or> one_step (status t) (status u)"
    by blast
  have "reachable (apply_call c s)" using Cons.prems(1) by (rule reachable_call)
  from Cons.IH [OF this u(1)] obtain t' where
    t': "store_tasks (run_calls cs (apply_call c s)) i = Some t'" "forward (status u) (status t')"
    by blast
  have "forward (status t) (status t')"
    using u(2) t'(2) by (cases "status t"; cases "status u"; cases "status t'") auto
  with t'(1) show ?case by simp
qed

text \<open>
  C1. For every task of a reachable store, one call of \<open>createTask\<close>, \<open>resolveTask\<close> or
  \<open>markDone\<close> either leaves the status as it is or moves it along one arrow of
  \<open>pending \<rightarrow> approved \<rightarrow> done\<close> or \<open>pending \<rightarrow> rejected\<close>; a task that appears in the
  store starts \<open>pending\<close>; and after any sequence of calls the task is still there with a
  status at or after the one it had, so that \<open>done\<close> is entered from \<open>approved\<close> only, and a
  task that has left \<open>pending\<close> never returns to it.
\<close>

theorem status_transitions_monotonic:
  assumes "reachable s" and "store_tasks s i = Some t"
  shows "(\<exists>t'. store_tasks (apply_call c s) i = Some t' \<and>
             (status t' = status t \<or> one_step (status t) (status t')) \<and>
             (status t' = Done \<longrightarrow> status t = Approved \<or> status t = Done))
       \<and> (\<forall>j u. store_tasks s j = None \<longrightarrow> store_tasks (apply_call c s) j = Some u
             \<longrightarrow> status u = Pending)
       \<and> (\<exists>t''. store_tasks (run_calls cs s) i = Some t'' \<and> forward (status t) (status t'') \<and>
             (status t \<noteq> Pending \<longrightarrow> status t'' \<noteq> Pending))"
proof -
  from apply_call_step [OF assms, of c] obtain t' where
    t': "store_tasks (apply_call c s) i = Some t'"
        "status t' = status t \<or> one_step (status t) (status t')"
    by blast
  have d: "status t' = Done \<longrightarrow> status t = Approved \<or> status t = Done"
    using t'(2) by (cases "status t") auto
  from run_calls_forward [OF assms, of cs] obtain t'' where
    t'': "store_tasks (run_calls cs s) i = Some t''" "forward (status t) (status t'')"
    by blast
  have p: "status t \<noteq> Pending \<longrightarrow> status t'' \<noteq> Pending"
    using t''(2) by (cases "status t") auto
  show ?thesis
    using t' d t'' p apply_call_fresh by blast
qed

theorem status_transitions_monotonic_witness:
  "reachable (apply_call (CreateTask ''write'' 7) empty_store)
   \<and> store_tasks (apply_call (CreateTask ''write'' 7) empty_store) 0
       = Some \<lparr>task_id = 0, status = Pending, payload = ''write'', createdAt = 7, resolvedBy = None\<rparr>
   \<and> (\<exists>t'. store_tasks (apply_call (ResolveTask 0 Approve ''A'')
                 (apply_call (CreateTask ''write'' 7) empty_store)) 0 = Some t'
          \<and> one_step Pending (status t'))
   \<and> (\<exists>t''. store_tasks (run_calls [ResolveTask 0 Approve ''A'', ResolveTask 0 Reject ''B'', MarkDone 0]
                 (apply_call (CreateTask ''write'' 7) empty_store)) 0 = Some t''
          \<and> forward Pending (status t''))"
proof -
  let ?s = "apply_call (CreateTask ''write'' 7) empty_store"
  let ?t = "\<lparr>task_id = 0, status = Pending, payload = ''write'', createdAt = 7, resolvedBy = None\<rparr>"
  have r: "reachable ?s" by (rule reachable_call [OF reachable_empty])
  have l: "store_tasks ?s 0 = Some ?t" by (simp add: createTask_def empty_store_def Let_def)
  have e: "store_tasks (apply_call (ResolveTask 0 Approve ''A'') ?s) 0
      = Some (?t\<lparr>status := Approved, resolvedBy := Some ''A''\<rparr>)"
    by (simp add: createTask_def resolveTask_def empty_store_def Let_def)
  from status_transitions_monotonic [OF r l, of "ResolveTask 0 Approve ''A''"
      "[ResolveTask 0 Approve ''A'', ResolveTask 0 Reject ''B'', MarkDone 0]"]
  show ?thesis using r l e by simp
qed

text \<open>
  C2. When the task exists and its status is not \<open>pending\<close>, \<open>resolveTask\<close> fails with
  \<open>AlreadyResolved\<close>, hands back the record as it was, and leaves the whole store, hence
  every field of every record, as it was.
\<close>

theorem resolveTask_already_resolved:
  assumes "store_tasks s i = Some t" and "status t \<noteq> Pending"
  shows "resolveTask i d c s = (Inl (AlreadyResolved t), s)"
  using assms by (simp add: resolveTask_def)

theorem resolveTask_already_resolved_witness:
  "store_tasks (run_calls [CreateTask ''write'' 7, ResolveTask 0 Approve ''A''] empty_store) 0
     = Some \<lparr>task_id = 0, status = Approved, payload = ''write'', createdAt = 7, resolvedBy = Some ''A''\<rparr>
   \<and> resolveTask 0 Reject ''B'' (run_calls [CreateTask ''write'' 7, ResolveTask 0 Approve ''A''] empty_store)
     = (Inl (AlreadyResolved \<lparr>task_id = 0, status = Approved, payload = ''write'', createdAt = 7,
                              resolvedBy = Some ''A''\<rparr>),
        run_calls [CreateTask ''write'' 7, ResolveTask 0 Approve ''A''] empty_store)"
proof -
  let ?s = "run_calls [CreateTask ''write'' 7, ResolveTask 0 Approve ''A''] empty_store"
  let ?t = "\<lparr>task_id = 0, status = Approved, payload = ''write'', createdAt = 7, resolvedBy = Some ''A''\<rparr>"
  have l: "store_tasks ?s 0 = Some ?t"
    by (simp add: createTask_def resolveTask_def empty_store_def Let_def)
  have n: "status ?t \<noteq> Pending" by simp
  from resolveTask_already_resolved [OF l n, of Reject "''B''"] l show ?thesis by simp
qed

section \<open>Properties of the client state cache\<close>

lemma find_replace_some:
  "find (\<lambda>t. task_id t = task_id mt) xs = Some e \<Longrightarrow>
   find (\<lambda>t. task_id t = task_id mt) (map (\<lambda>t. if task_id t = task_id mt then mt else t) xs) \<noteq> None"
  by (induction xs) (auto split: if_splits)

lemma find_snoc_absent:
  "find P xs = None \<Longrightarrow> find P (xs @ [x]) = (if P x then Some x else None)"
  by (induction xs) (auto split: if_splits)

lemma replace_absent:
  "find (\<lambda>t. task_id t = task_id mt) xs = None \<Longrightarrow>
   map (\<lambda>t. if task_id t = task_id mt then mt else t) xs = xs"
  by (induction xs) (auto split: if_splits)

text \<open>
  C3. Applying the same \<open>task:update\<close> event twice leaves the client state as applying it
  once does.
\<close>

theorem handleTaskUpdate_idempotent:
  "handleTaskUpdate mt (handleTaskUpdate mt st) = handleTaskUpdate mt st"
proof (cases "find (\<lambda>t. task_id t = task_id mt) (tasks st)")
  case None
  then show ?thesis
    by (simp add: handleTaskUpdate_def appendState_def updateInArray_def find_snoc_absent replace_absent)
next
  case (Some e)
  from find_replace_some [OF this] obtain e' where
    "find (\<lambda>t. task_id t = task_id mt) (map (\<lambda>t. if task_id t = task_id mt then mt else t) (tasks st)) = Some e'"
    by blast
  with Some show ?thesis
    by (simp add: handleTaskUpdate_def updateInArray_def comp_def)
qed

text \<open>
  C4. If a task with the id of the event's record is in the list, the list keeps its
  length and its order, every entry with that id becomes the event's record and every
  other entry stays; if none is, the event's record is added at the end. The room
  messages are not touched.
\<close>

theorem handleTaskUpdate_replace_or_insert:
  "((\<exists>t \<in> set (tasks st). task_id t = task_id mt) \<longrightarrow>
      length (tasks (handleTaskUpdate mt st)) = length (tasks st) \<and>
      (\<forall>j < length (tasks st).
         tasks (handleTaskUpdate mt st) ! j =
           (if task_id (tasks st ! j) = task_id mt then mt else tasks st ! j)))
   \<and> (\<not> (\<exists>t \<in> set (tasks st). task_id t = task_id mt) \<longrightarrow>
      tasks (handleTaskUpdate mt st) = tasks st @ [mt])
   \<and> roomMessages (handleTaskUpdate mt st) = roomMessages st"
proof (cases "find (\<lambda>t. task_id t = task_id mt) (tasks st)")
  case None
  then have "\<not> (\<exists>t \<in> set (tasks st). task_id t = task_id mt)"
    by (auto simp: find_None_iff)
  with None show ?thesis
    by (simp add: handleTaskUpdate_def appendState_def)
next
  case (Some e)
  then have "\<exists>t \<in> set (tasks st). task_id t = task_id mt"
    by (auto simp: find_Some_iff)
  with Some show ?thesis
    by (simp add: handleTaskUpdate_def updateInArray_def)
qed

theorem handleTaskUpdate_replace_or_insert_witness:
  "tasks (handleTaskUpdate
       \<lparr>task_id = 1, status = Approved, payload = ''b'', createdAt = 2, resolvedBy = Some ''A''\<rparr>
       \<lparr>tasks = [\<lparr>task_id = 0, status = Pending, payload = ''a'', createdAt = 1, resolvedBy = None\<rparr>,
                 \<lparr>task_id = 1, status = Pending, payload = ''b'', createdAt = 2, resolvedBy = None\<rparr>],
        roomMessages = []\<rparr>)
     = [\<lparr>task_id = 0, status = Pending, payload = ''a'', createdAt = 1, resolvedBy = None\<rparr>,
        \<lparr>task_id = 1, status = Approved, payload = ''b'', createdAt = 2, resolvedBy = Some ''A''\<rparr>]
   \<and> tasks (handleTaskUpdate
       \<lparr>task_id = 1, status = Approved, payload = ''b'', createdAt = 2, resolvedBy = Some ''A''\<rparr>
       \<lparr>tasks = [\<lparr>task_id = 0, status = Pending, payload = ''a'', createdAt = 1, resolvedBy = None\<rparr>],
        roomMessages = []\<rparr>)
     = [\<lparr>task_id = 0, status = Pending, payload = ''a'', createdAt = 1, resolvedBy = None\<rparr>,
        \<lparr>task_id = 1, status = Approved, payload = ''b'', createdAt = 2, resolvedBy = Some ''A''\<rparr>]"
proof -
  let ?mt = "\<lparr>task_id = 1, status = Approved, payload = ''b'', createdAt = 2, resolvedBy = Some ''A''\<rparr>"
  let ?t0 = "\<lparr>task_id = 0, status = Pending, payload = ''a'', createdAt = 1, resolvedBy = None\<rparr>"
  let ?t1 = "\<lparr>task_id = 1, status = Pending, payload = ''b'', createdAt = 2, resolvedBy = None\<rparr>"
  let ?st = "\<lparr>tasks = [?t0, ?t1], roomMessages = []\<rparr>"
  let ?su = "\<lparr>tasks = [?t0], roomMessages = []\<rparr>"
  from handleTaskUpdate_replace_or_insert [of ?st ?mt]
  have a: "length (tasks (handleTaskUpdate ?mt ?st)) = 2"
    and b: "\<forall>j < 2. tasks (handleTaskUpdate ?mt ?st) ! j
              = (if task_id ([?t0, ?t1] ! j) = 1 then ?mt else [?t0, ?t1] ! j)"
    by simp_all
  from b have b0: "tasks (handleTaskUpdate ?mt ?st) ! 0 = ?t0"
    and b1: "tasks (handleTaskUpdate ?mt ?st) ! 1 = ?mt"
    by (simp_all del: One_nat_def)
  have p: "tasks (handleTaskUpdate ?mt ?st) = [?t0, ?mt]"
    using a b0 b1 by (intro nth_equalityI) (auto simp: less_Suc_eq numeral_2_eq_2)
  from handleTaskUpdate_replace_or_insert [of ?su ?mt]
  have q: "tasks (handleTaskUpdate ?mt ?su) = [?t0, ?mt]" by simp
  show ?thesis using p q by simp
qed

section \<open>Properties of the settings route\<close>

lemma maskSecret_cases:
  "maskSecret v = (if v = [] then [] else if length v < 4 then ''****'' else ''****'' @ drop (length v - 4) v)"
  by (simp add: maskSecret_def)

lemma router_get_sources:
  "router_get srv =
     map (\<lambda>f. (f, if type f = Secret then maskSecret (secret_source srv (key f))
                    else plain_source srv (key f))) SETTINGS_SCHEMA"
  by (simp add: router_get_def secret_source_def plain_source_def Let_def)

lemma maskSecret_same_suffix:
  assumes "(4 \<le> length v \<and> 4 \<le> length v' \<and> drop (length v - 4) v = drop (length v' - 4) v')
         \<or> (v \<noteq> [] \<and> length v < 4 \<and> v' \<noteq> [] \<and> length v' < 4)
         \<or> (v = [] \<and> v' = [])"
  shows "maskSecret v' = maskSecret v"
  using assms by (auto simp: maskSecret_cases)

text \<open>
  C5 (as amended). \<open>GET /api/settings\<close> returns one entry for each field of the schema
  and nothing else. For a secret field, let the stored value be \<open>secret_source\<close>, what the
  handler reads for the field: the entry of the \<open>.env\<close> file as \<open>parseEnvValues\<close> reads
  it or, if that is missing or empty, the entry of \<open>process.env\<close>. A stored value of four
  characters or more is returned as \<open>****\<close> followed by its last four characters; a
  stored value of one to three characters is returned as \<open>****\<close> alone. No other
  character of a secret appears in the response: two servers whose secrets agree in what
  is shown (the last four characters of a secret of four or more, nothing of a shorter
  one) and whose other fields have the same values get the same response. The stored
  value \<open>sk-test-1234\<close> is returned as \<open>****1234\<close>.
\<close>

theorem secret_values_masked:
  "map fst (router_get srv) = SETTINGS_SCHEMA
   \<and> ((f, r) \<in> set (router_get srv) \<and> type f = Secret \<longrightarrow>
        (4 \<le> length (secret_source srv (key f)) \<longrightarrow>
           r = ''****'' @ drop (length (secret_source srv (key f)) - 4) (secret_source srv (key f)))
      \<and> (secret_source srv (key f) \<noteq> [] \<and> length (secret_source srv (key f)) < 4 \<longrightarrow>
           r = ''****''))
   \<and> ((\<forall>g \<in> set SETTINGS_SCHEMA.
          (type g = Secret \<longrightarrow>
             (4 \<le> length (secret_source srv (key g)) \<and> 4 \<le> length (secret_source srv' (key g)) \<and>
              drop (length (secret_source srv (key g)) - 4) (secret_source srv (key g))
                = drop (length (secret_source srv' (key g)) - 4) (secret_source srv' (key g)))
           \<or> (secret_source srv (key g) \<noteq> [] \<and> length (secret_source srv (key g)) < 4 \<and>
              secret_source srv' (key g) \<noteq> [] \<and> length (secret_source srv' (key g)) < 4)
           \<or> (secret_source srv (key g) = [] \<and> secret_source srv' (key g) = []))
        \<and> (type g \<noteq> Secret \<longrightarrow> plain_source srv (key g) = plain_source srv' (key g)))
       \<longrightarrow> router_get srv' = router_get srv)
   \<and> maskSecret ''sk-test-1234'' = ''****1234''"
proof (intro conjI impI)
  show "map fst (router_get srv) = SETTINGS_SCHEMA"
    by (simp add: router_get_sources comp_def)
next
  assume "(f, r) \<in> set (router_get srv) \<and> type f = Secret"
  then have r: "r = maskSecret (secret_source srv (key f))"
    by (auto simp: router_get_sources)
  {
    assume "4 \<le> length (secret_source srv (key f))"
    then show "r = ''****'' @ drop (length (secret_source srv (key f)) - 4) (secret_source srv (key f))"
      unfolding r by (auto simp: maskSecret_cases)
  next
    assume "secret_source srv (key f) \<noteq> [] \<and> length (secret_source srv (key f)) < 4"
    then show "r = ''****''" unfolding r by (simp add: maskSecret_cases)
  }
next
  assume h: "\<forall>g \<in> set SETTINGS_SCHEMA.
          (type g = Secret \<longrightarrow>
             (4 \<le> length (secret_source srv (key g)) \<and> 4 \<le> length (secret_source srv' (key g)) \<and>
              drop (length (secret_source srv (key g)) - 4) (secret_source srv (key g))
                = drop (length (secret_source srv' (key g)) - 4) (secret_source srv' (key g)))
           \<or> (secret_source srv (key g) \<noteq> [] \<and> length (secret_source srv (key g)) < 4 \<and>
              secret_source srv' (key g) \<noteq> [] \<and> length (secret_source srv' (key g)) < 4)
           \<or> (secret_source srv (key g) = [] \<and> secret_source srv' (key g) = []))
        \<and> (type g \<noteq> Secret \<longrightarrow> plain_source srv (key g) = plain_source srv' (key g))"
  show "router_get srv' = router_get srv"
    unfolding router_get_sources
  proof (rule map_cong [OF refl])
    fix g assume g: "g \<in> set SETTINGS_SCHEMA"
    show "(g, if type g = Secret then maskSecret (secret_source srv' (key g))
                    else plain_source srv' (key g))
        = (g, if type g = Secret then maskSecret (secret_source srv (key g))
                    else plain_source srv (key g))"
    proof (cases "type g = Secret")
      case True
      with h g have "maskSecret (secret_source srv' (key g)) = maskSecret (secret_source srv (key g))"
        by (intro maskSecret_same_suffix) blast
      with True show ?thesis by simp
    next
      case False
      with h g show ?thesis by simp
    qed
  qed
next
  show "maskSecret ''sk-test-1234'' = ''****1234''" by (simp add: maskSecret_def)
qed

theorem secret_values_masked_witness:
  "map fst (router_get \<lparr>env_file = Some ''ANTHROPIC_API_KEY=sk-test-1234'', process_env = Map.empty\<rparr>)
     = SETTINGS_SCHEMA
   \<and> (\<lparr>key = ''ANTHROPIC_API_KEY'', label = ''Anthropic API Key'', type = Secret, restart = False\<rparr>,
     ''****1234'')
     \<in> set (router_get \<lparr>env_file = Some ''ANTHROPIC_API_KEY=sk-test-1234'', process_env = Map.empty\<rparr>)
   \<and> router_get \<lparr>env_file = Some ''ANTHROPIC_API_KEY=other-key-991234'', process_env = Map.empty\<rparr>
     = router_get \<lparr>env_file = Some ''ANTHROPIC_API_KEY=sk-test-1234'', process_env = Map.empty\<rparr>"
proof -
  let ?f = "\<lparr>key = ''ANTHROPIC_API_KEY'', label = ''Anthropic API Key'', type = Secret, restart = False\<rparr>"
  let ?srv = "\<lparr>env_file = Some ''ANTHROPIC_API_KEY=sk-test-1234'', process_env = Map.empty\<rparr>"
  let ?srv' = "\<lparr>env_file = Some ''ANTHROPIC_API_KEY=other-key-991234'', process_env = Map.empty\<rparr>"
  have p: "parseEnvValues ''ANTHROPIC_API_KEY=sk-test-1234'' = [''ANTHROPIC_API_KEY'' \<mapsto> ''sk-test-1234'']"
    by (simp add: parseEnvValues_def parseEnvValues_line_def trim_def is_ws_def startsWith_def Let_def)
  have p': "parseEnvValues ''ANTHROPIC_API_KEY=other-key-991234''
      = [''ANTHROPIC_API_KEY'' \<mapsto> ''other-key-991234'']"
    by (simp add: parseEnvValues_def parseEnvValues_line_def trim_def is_ws_def startsWith_def Let_def)
  have s: "secret_source ?srv k = (if k = ''ANTHROPIC_API_KEY'' then ''sk-test-1234'' else [])" for k
    by (simp add: secret_source_def readEnvFile_def p js_or_def)
  have s': "secret_source ?srv' k = (if k = ''ANTHROPIC_API_KEY'' then ''other-key-991234'' else [])" for k
    by (simp add: secret_source_def readEnvFile_def p' js_or_def)
  have q: "plain_source ?srv k = (if k = ''ANTHROPIC_API_KEY'' then ''sk-test-1234'' else [])" for k
    by (simp add: plain_source_def readEnvFile_def p js_nullish_def)
  have q': "plain_source ?srv' k = (if k = ''ANTHROPIC_API_KEY'' then ''other-key-991234'' else [])" for k
    by (simp add: plain_source_def readEnvFile_def p' js_nullish_def)
  have m: "(?f, ''****1234'') \<in> set (router_get ?srv)"
    by (simp add: router_get_sources SETTINGS_SCHEMA_def s maskSecret_def)
  have t: "type ?f = Secret" by simp
  have h: "\<forall>g \<in> set SETTINGS_SCHEMA.
          (type g = Secret \<longrightarrow>
             (4 \<le> length (secret_source ?srv (key g)) \<and> 4 \<le> length (secret_source ?srv' (key g)) \<and>
              drop (length (secret_source ?srv (key g)) - 4) (secret_source ?srv (key g))
                = drop (length (secret_source ?srv' (key g)) - 4) (secret_source ?srv' (key g)))
           \<or> (secret_source ?srv (key g) \<noteq> [] \<and> length (secret_source ?srv (key g)) < 4 \<and>
              secret_source ?srv' (key g) \<noteq> [] \<and> length (secret_source ?srv' (key g)) < 4)
           \<or> (secret_source ?srv (key g) = [] \<and> secret_source ?srv' (key g) = []))
        \<and> (type g \<noteq> Secret \<longrightarrow> plain_source ?srv (key g) = plain_source ?srv' (key g))"
    unfolding s s' q q' by (simp add: SETTINGS_SCHEMA_def)
  from secret_values_masked [of ?srv ?f "''****1234''" ?srv'] m t h
  show ?thesis by blast
qed

text \<open>
  The claim as first stated fails for a stored value shorter than four characters: the
  guard of \<open>maskSecret\<close> returns \<open>****\<close> for \<open>abc\<close>, not \<open>****\<close> followed by the last
  characters of the value.
\<close>

theorem secret_values_masked_counterexample:
  "(\<lparr>key = ''ANTHROPIC_API_KEY'', label = ''Anthropic API Key'', type = Secret, restart = False\<rparr>,
     ''****'')
     \<in> set (router_get \<lparr>env_file = Some ''ANTHROPIC_API_KEY=abc'', process_env = Map.empty\<rparr>)
   \<and> ''****'' \<noteq> ''****'' @ drop (length ''abc'' - 4) ''abc''"
proof -
  have p: "parseEnvValues ''ANTHROPIC_API_KEY=abc'' ''ANTHROPIC_API_KEY'' = Some ''abc''"
    by (simp add: parseEnvValues_def parseEnvValues_line_def trim_def is_ws_def startsWith_def Let_def)
  show ?thesis
    by (simp add: router_get_def SETTINGS_SCHEMA_def Let_def readEnvFile_def p js_or_def maskSecret_def)
qed

lemma router_post_entry_unknown: "fst e \<notin> ALLOWED_KEYS \<Longrightarrow> router_post_entry acc e = acc"
  by (cases acc; cases e) (simp add: router_post_entry_def)

lemma foldl_router_post_entry_filter:
  "foldl router_post_entry acc (filter (\<lambda>e. fst e \<in> ALLOWED_KEYS) es) = foldl router_post_entry acc es"
  by (induction es arbitrary: acc) (simp_all add: router_post_entry_unknown)

lemma foldl_router_post_entry_unknown:
  "\<forall>e \<in> set es. fst e \<notin> ALLOWED_KEYS \<Longrightarrow> foldl router_post_entry acc es = acc"
  by (induction es arbitrary: acc) (simp_all add: router_post_entry_unknown)

lemma router_post_entry_env_frame:
  "k \<notin> ALLOWED_KEYS \<Longrightarrow> snd (snd (router_post_entry acc e)) k = snd (snd acc) k"
  by (cases acc; cases e) (auto simp: router_post_entry_def split: json.splits)

lemma foldl_router_post_entry_env_frame:
  "k \<notin> ALLOWED_KEYS \<Longrightarrow> snd (snd (foldl router_post_entry acc es)) k = snd (snd acc) k"
  by (induction es arbitrary: acc) (simp_all add: router_post_entry_env_frame)

lemma router_post_env_frame:
  assumes "k \<notin> ALLOWED_KEYS"
  shows "process_env (snd (router_post inh body srv)) k = process_env srv k"
proof (cases body)
  case None
  then show ?thesis by (simp add: router_post_def)
next
  case (Some updates)
  obtain fl rn env where f: "foldl router_post_entry ([], False, process_env srv) (object_entries updates) = (fl, rn, env)"
    by (cases "foldl router_post_entry ([], False, process_env srv) (object_entries updates)") auto
  from foldl_router_post_entry_env_frame [OF assms, of "([], False, process_env srv)" "object_entries updates"] f
  have "env k = process_env srv k" by simp
  with Some f show ?thesis by (simp add: router_post_def)
qed

lemma router_get_keys: "key ` fst ` set (router_get srv) = ALLOWED_KEYS"
  by (simp add: router_get_def ALLOWED_KEYS_def Let_def image_image)

lemma decimal_digit: "(n::nat) < 10 \<Longrightarrow> ''0123456789'' ! n \<in> set ''0123456789''"
  by (rule nth_mem) simp

lemma decimal_hd: "decimal n \<noteq> [] \<and> hd (decimal n) \<in> set ''0123456789''"
proof (induction n rule: decimal.induct)
  case (1 n)
  show ?case
  proof (cases "n < 10")
    case True
    then show ?thesis using decimal_digit [OF True] by (subst decimal.simps, subst decimal.simps) simp
  next
    case False
    with 1 show ?thesis by (subst decimal.simps, subst (2) decimal.simps) simp
  qed
qed

lemma decimal_not_allowed: "decimal n \<notin> ALLOWED_KEYS"
proof
  assume "decimal n \<in> ALLOWED_KEYS"
  then have "hd (decimal n) \<in> {CHR ''A'', CHR ''C'', CHR ''L'', CHR ''P''}"
    by (auto simp: ALLOWED_KEYS_def SETTINGS_SCHEMA_def)
  with decimal_hd [of n] show False by auto
qed

text \<open>
  C6. A body key outside the allow-list is dropped without a trace: the handler answers
  and leaves the server as it does for the body without the unknown keys, the answer is
  never the error, a body of unknown keys only (an array body among them) is answered
  with \<open>{ok: true, restartNeeded: false}\<close> and leaves the \<open>.env\<close> file and \<open>process.env\<close>
  as they were, \<open>process.env\<close> keeps its entry for an unknown key whatever the body is,
  and the following \<open>GET\<close> has no field for such a key.
\<close>

theorem unknown_keys_dropped:
  "router_post inh (Some (JObj es)) srv
     = router_post inh (Some (JObj (filter (\<lambda>e. fst e \<in> ALLOWED_KEYS) es))) srv
   \<and> fst (router_post inh (Some (JObj es)) srv) \<noteq> BadRequest
   \<and> ((\<forall>e \<in> set es. fst e \<notin> ALLOWED_KEYS) \<longrightarrow>
        router_post inh (Some (JObj es)) srv = (Saved False, srv))
   \<and> router_post inh (Some (JArr xs)) srv = (Saved False, srv)
   \<and> (k \<notin> ALLOWED_KEYS \<longrightarrow>
        process_env (snd (router_post inh body srv)) k = process_env srv k \<and>
        k \<notin> key ` fst ` set (router_get (snd (router_post inh body srv))))"
proof -
  have a: "router_post inh (Some (JObj es)) srv
     = router_post inh (Some (JObj (filter (\<lambda>e. fst e \<in> ALLOWED_KEYS) es))) srv"
    by (simp add: router_post_def foldl_router_post_entry_filter)
  have b: "fst (router_post inh (Some (JObj es)) srv) \<noteq> BadRequest"
    by (simp add: router_post_def split: prod.splits)
  have c: "(\<forall>e \<in> set es. fst e \<notin> ALLOWED_KEYS) \<longrightarrow>
        router_post inh (Some (JObj es)) srv = (Saved False, srv)"
    by (simp add: router_post_def foldl_router_post_entry_unknown)
  have "\<forall>e \<in> set (object_entries (JArr xs)). fst e \<notin> ALLOWED_KEYS"
    by (auto simp: decimal_not_allowed dest!: set_zip_leftD)
  then have d: "router_post inh (Some (JArr xs)) srv = (Saved False, srv)"
    by (simp add: router_post_def foldl_router_post_entry_unknown del: object_entries.simps)
  show ?thesis
    using a b c d router_post_env_frame [of k inh body srv] router_get_keys by simp
qed

theorem unknown_keys_dropped_witness:
  "router_post node_inherited (Some (JObj [(''UNKNOWN_KEY'', JStr ''x'')]))
       \<lparr>env_file = Some ''PORT=80'', process_env = [''PORT'' \<mapsto> ''80'']\<rparr>
     = (Saved False, \<lparr>env_file = Some ''PORT=80'', process_env = [''PORT'' \<mapsto> ''80'']\<rparr>)
   \<and> process_env (snd (router_post node_inherited (Some (JObj [(''UNKNOWN_KEY'', JStr ''x''), (''PORT'', JStr ''81'')]))
       \<lparr>env_file = Some ''PORT=80'', process_env = [''PORT'' \<mapsto> ''80'']\<rparr>)) ''UNKNOWN_KEY'' = None"
proof -
  have u: "''UNKNOWN_KEY'' \<notin> ALLOWED_KEYS"
    by (simp add: ALLOWED_KEYS_def SETTINGS_SCHEMA_def)
  then have a: "\<forall>e \<in> set [(''UNKNOWN_KEY'', JStr ''x'')]. fst e \<notin> ALLOWED_KEYS" by simp
  from unknown_keys_dropped [of node_inherited "[(''UNKNOWN_KEY'', JStr ''x'')]"
      "\<lparr>env_file = Some ''PORT=80'', process_env = [''PORT'' \<mapsto> ''80'']\<rparr>" "[]" "''UNKNOWN_KEY''" None] a
  have 1: "router_post node_inherited (Some (JObj [(''UNKNOWN_KEY'', JStr ''x'')]))
       \<lparr>env_file = Some ''PORT=80'', process_env = [''PORT'' \<mapsto> ''80'']\<rparr>
     = (Saved False, \<lparr>env_file = Some ''PORT=80'', process_env = [''PORT'' \<mapsto> ''80'']\<rparr>)"
    by blast
  show ?thesis using 1 u
      unknown_keys_dropped [of node_inherited "[]" "\<lparr>env_file = Some ''PORT=80'', process_env = [''PORT'' \<mapsto> ''80'']\<rparr>"
        "[]" "''UNKNOWN_KEY''" "Some (JObj [(''UNKNOWN_KEY'', JStr ''x''), (''PORT'', JStr ''81'')])"]
    by simp
qed







section \<open>Properties of the room relay\<close>

text \<open>
  C8 (as amended). For every inbound \<open>room:chat\<close> message from a remote participant:
  if its text is a string, the message is injected into the chat (marker stripped, sender
  from the message, else the participant, else \<open>unknown\<close>) and not appended when the text
  starts with \<open>cognate:\<close>, and it is appended to the room messages when it does not; if
  its text is missing or falsy, the message is appended; if its text is a truthy value
  that is not a string, the call of \<open>startsWith\<close> throws, the \<open>catch\<close> block logs a
  warning, and the message is neither injected nor appended. For a string the
  classification is the prefix test alone.
\<close>

theorem dataReceived_routes_by_prefix:
  assumes "map_of es ''type'' = Some (JStr ''room:chat'')" and "participant \<noteq> Some localIdentity"
  shows "(\<forall>s. map_of es ''text'' = Some (JStr s) \<longrightarrow>
            dataReceived localIdentity (Some (JObj es)) participant =
              (if startsWith s ''cognate:''
               then InjectCognateMessage (drop (length ''cognate:'') s)
                      (case map_of es ''sender'' of
                         Some sd \<Rightarrow> if truthy sd then sd else JStr (js_or participant ''unknown'')
                       | None \<Rightarrow> JStr (js_or participant ''unknown''))
               else AppendRoomMessage (JObj es)))
       \<and> (map_of es ''text'' = None \<or> (\<exists>tx. map_of es ''text'' = Some tx \<and> \<not> truthy tx) \<longrightarrow>
            dataReceived localIdentity (Some (JObj es)) participant = AppendRoomMessage (JObj es))
       \<and> ((\<exists>tx. map_of es ''text'' = Some tx \<and> truthy tx \<and> (\<forall>s. tx \<noteq> JStr s)) \<longrightarrow>
            dataReceived localIdentity (Some (JObj es)) participant = Warned)"
proof (intro conjI allI impI)
  fix s
  assume "map_of es ''text'' = Some (JStr s)"
  with assms show "dataReceived localIdentity (Some (JObj es)) participant =
              (if startsWith s ''cognate:''
               then InjectCognateMessage (drop (length ''cognate:'') s)
                      (case map_of es ''sender'' of
                         Some sd \<Rightarrow> if truthy sd then sd else JStr (js_or participant ''unknown'')
                       | None \<Rightarrow> JStr (js_or participant ''unknown''))
               else AppendRoomMessage (JObj es))"
    by (auto simp: dataReceived_def startsWith_def split: option.splits)
next
  assume "map_of es ''text'' = None \<or> (\<exists>tx. map_of es ''text'' = Some tx \<and> \<not> truthy tx)"
  with assms show "dataReceived localIdentity (Some (JObj es)) participant = AppendRoomMessage (JObj es)"
    by (auto simp: dataReceived_def)
next
  assume "\<exists>tx. map_of es ''text'' = Some tx \<and> truthy tx \<and> (\<forall>s. tx \<noteq> JStr s)"
  then obtain tx where "map_of es ''text'' = Some tx" "truthy tx" "\<forall>s. tx \<noteq> JStr s" by blast
  with assms show "dataReceived localIdentity (Some (JObj es)) participant = Warned"
    by (cases tx) (simp_all add: dataReceived_def)
qed

theorem dataReceived_routes_by_prefix_witness:
  "dataReceived ''me'' (Some (JObj [(''type'', JStr ''room:chat''), (''text'', JStr ''cognate:hello''),
        (''sender'', JStr ''bob'')])) (Some ''peer'')
     = InjectCognateMessage ''hello'' (JStr ''bob'')
   \<and> dataReceived ''me'' (Some (JObj [(''type'', JStr ''room:chat''), (''text'', JStr ''hello'')])) None
     = AppendRoomMessage (JObj [(''type'', JStr ''room:chat''), (''text'', JStr ''hello'')])
   \<and> dataReceived ''me'' (Some (JObj [(''type'', JStr ''room:chat'')])) (Some ''peer'')
     = AppendRoomMessage (JObj [(''type'', JStr ''room:chat'')])
   \<and> dataReceived ''me'' (Some (JObj [(''type'', JStr ''room:chat''), (''text'', JArr [])])) (Some ''peer'')
     = Warned"
proof -
  have p: "Some ''peer'' \<noteq> Some ''me''" "None \<noteq> Some ''me''" by simp_all
  let ?e1 = "[(''type'', JStr ''room:chat''), (''text'', JStr ''cognate:hello''), (''sender'', JStr ''bob'')]"
  let ?e2 = "[(''type'', JStr ''room:chat''), (''text'', JStr ''hello'')]"
  let ?e3 = "[(''type'', JStr ''room:chat'')]"
  let ?e4 = "[(''type'', JStr ''room:chat''), (''text'', JArr [])]"
  have t: "map_of ?e1 ''type'' = Some (JStr ''room:chat'')" "map_of ?e2 ''type'' = Some (JStr ''room:chat'')"
    "map_of ?e3 ''type'' = Some (JStr ''room:chat'')" "map_of ?e4 ''type'' = Some (JStr ''room:chat'')"
    by simp_all
  from dataReceived_routes_by_prefix [OF t(1) p(1)]
  have 1: "dataReceived ''me'' (Some (JObj ?e1)) (Some ''peer'') = InjectCognateMessage ''hello'' (JStr ''bob'')"
    by (simp add: startsWith_def)
  from dataReceived_routes_by_prefix [OF t(2) p(2)]
  have 2: "dataReceived ''me'' (Some (JObj ?e2)) None = AppendRoomMessage (JObj ?e2)"
    by (simp add: startsWith_def)
  from dataReceived_routes_by_prefix [OF t(3) p(1)]
  have 3: "dataReceived ''me'' (Some (JObj ?e3)) (Some ''peer'') = AppendRoomMessage (JObj ?e3)"
    by simp
  from dataReceived_routes_by_prefix [OF t(4) p(1)]
  have 4: "dataReceived ''me'' (Some (JObj ?e4)) (Some ''peer'') = Warned"
    by simp
  from 1 2 3 4 show ?thesis by simp
qed

text \<open>
  The claim as first stated fails for a message whose text is not a string: with the
  number 42 as text the message does not start with the marker, and it is not appended.
\<close>

theorem dataReceived_routes_by_prefix_counterexample:
  "dataReceived ''me'' (Some (JObj [(''type'', JStr ''room:chat''), (''text'', JNum 42),
        (''sender'', JStr ''bob'')])) (Some ''peer'')
     \<noteq> AppendRoomMessage (JObj [(''type'', JStr ''room:chat''), (''text'', JNum 42),
        (''sender'', JStr ''bob'')])
   \<and> dataReceived ''me'' (Some (JObj [(''type'', JStr ''room:chat''), (''text'', JNum 42),
        (''sender'', JStr ''bob'')])) (Some ''peer'') = Warned"
  by (simp add: dataReceived_def)

section \<open>Properties of the \<open>.env\<close> file\<close>

lemma split_not_Nil: "split d xs \<noteq> []"
  by (induction xs) (auto split: list.splits)

lemma split_append_sep: "split d (xs @ d # ys) = split d xs @ split d ys"
proof (induction xs)
  case Nil
  then show ?case by simp
next
  case (Cons c cs)
  obtain l ls where "split d cs = l # ls"
    using split_not_Nil [of d cs] by (cases "split d cs") auto
  with Cons show ?case by simp
qed

lemma split_no_sep: "d \<notin> set xs \<Longrightarrow> split d xs = [xs]"
  by (induction xs) auto

lemma split_join: "ls \<noteq> [] \<Longrightarrow> split d (join d ls) = concat (map (split d) ls)"
  by (induction d ls rule: join.induct) (simp_all add: split_append_sep)

lemma split_join_lines:
  assumes "ls \<noteq> []" and "\<forall>l \<in> set ls. d \<notin> set l"
  shows "split d (join d ls) = ls"
proof -
  have "concat (map (split d) ls) = ls"
    using assms(2) by (induction ls) (simp_all add: split_no_sep)
  with assms(1) show ?thesis by (simp add: split_join)
qed

lemma split_replicate: "split d (replicate n d) = replicate (Suc n) []"
  by (induction n) simp_all

lemma split_append_replicate: "split d (xs @ replicate n d) = split d xs @ replicate n []"
proof (cases n)
  case 0
  then show ?thesis by simp
next
  case (Suc m)
  then have "xs @ replicate n d = xs @ d # replicate m d" by simp
  then show ?thesis
    using Suc by (simp only: split_append_sep split_replicate)
qed

lemma strip_decompose:
  "s = rev (dropWhile (\<lambda>c. c = d) (rev s)) @ replicate (length (takeWhile (\<lambda>c. c = d) (rev s))) d"
proof -
  have t: "takeWhile (\<lambda>c. c = d) xs = replicate (length (takeWhile (\<lambda>c. c = d) xs)) d" for xs :: "'a list"
    by (induction xs) auto
  have "rev s = takeWhile (\<lambda>c. c = d) (rev s) @ dropWhile (\<lambda>c. c = d) (rev s)" by simp
  then have "s = rev (dropWhile (\<lambda>c. c = d) (rev s)) @ rev (takeWhile (\<lambda>c. c = d) (rev s))"
    by (metis rev_append rev_rev_ident)
  also have "rev (takeWhile (\<lambda>c. c = d) (rev s)) = replicate (length (takeWhile (\<lambda>c. c = d) (rev s))) d"
    by (subst t) simp
  finally show ?thesis .
qed

lemma split_replace_trailing:
  "split NL (replace_trailing_newlines s) = split NL (rev (dropWhile (\<lambda>c. c = NL) (rev s))) @ [[]]"
  using split_append_replicate [of NL "rev (dropWhile (\<lambda>c. c = NL) (rev s))" 1]
  by (simp add: replace_trailing_newlines_def)

lemma split_stripped:
  "\<exists>n. split NL s = split NL (rev (dropWhile (\<lambda>c. c = NL) (rev s))) @ replicate n []"
proof -
  let ?t = "rev (dropWhile (\<lambda>c. c = NL) (rev s))"
  let ?n = "length (takeWhile (\<lambda>c. c = NL) (rev s))"
  have "split NL s = split NL (?t @ replicate ?n NL)"
    using strip_decompose [of s NL] by simp
  then show ?thesis by (auto simp: split_append_replicate)
qed

lemma split_eq_blank: "split d xs = [[]] \<longleftrightarrow> xs = []"
proof (cases xs)
  case Nil
  then show ?thesis by simp
next
  case (Cons c cs)
  obtain l ls where "split d cs = l # ls"
    using split_not_Nil [of d cs] by (cases "split d cs") auto
  with Cons show ?thesis by auto
qed

lemma last_split_Nil: "last (split d xs) = [] \<longleftrightarrow> xs = [] \<or> last xs = d"
proof (induction xs)
  case Nil
  then show ?case by simp
next
  case (Cons c cs)
  obtain l ls where s: "split d cs = l # ls"
    using split_not_Nil [of d cs] by (cases "split d cs") auto
  show ?case
  proof (cases "cs = []")
    case True
    then show ?thesis by auto
  next
    case False
    with Cons s split_eq_blank [of d cs] show ?thesis by (cases ls) (auto split: if_splits)
  qed
qed

lemma trim_Nil: "trim [] = []"
  by (simp add: trim_def)

lemma env_entry_Nil: "env_entry [] = None"
  by (simp add: env_entry_def trim_Nil)

lemma parseEnvValues_line_entry:
  "parseEnvValues_line vals line =
     (case env_entry line of
        None \<Rightarrow> vals
      | Some (k, v) \<Rightarrow> if k = ''__proto__'' then vals else vals(k \<mapsto> v))"
  by (simp add: parseEnvValues_line_def env_entry_def Let_def split: option.splits)

lemma updateEnvFile_line_key:
  "updateEnvFile_line inh updates line =
     (case line_key line of
        None \<Rightarrow> line
      | Some k \<Rightarrow> if js_in k updates then k @ ''='' @ js_get inh updates k else line)"
  by (simp add: updateEnvFile_line_def line_key_def env_entry_def Let_def split: option.splits)

lemma updateEnvFile_written_key:
  "updateEnvFile_written updates line =
     (case line_key line of
        None \<Rightarrow> None
      | Some k \<Rightarrow> if js_in k updates then Some k else None)"
  by (simp add: updateEnvFile_written_def line_key_def env_entry_def Let_def split: option.splits)

lemma rtrim_keeps_head:
  assumes "d \<noteq> []" and "\<not> P (hd d)"
  shows "rev (dropWhile P (rev d)) = hd d # rev (dropWhile P (rev (tl d)))"
proof -
  from assms(1) have "rev d = rev (tl d) @ [hd d]" by (cases d) simp_all
  then have "dropWhile P (rev d) = dropWhile P (rev (tl d)) @ [hd d]"
    using assms(2) by (simp add: dropWhile_append3)
  then show ?thesis by simp
qed

lemma ltrim_rtrim_commute:
  "dropWhile P (rev (dropWhile P (rev v))) = rev (dropWhile P (rev (dropWhile P v)))"
proof (cases "dropWhile P v = []")
  case True
  then have "\<forall>x \<in> set v. P x" by simp
  then have a: "dropWhile P (rev v) = []" by simp
  show ?thesis unfolding a True by simp
next
  case False
  let ?a = "takeWhile P v" and ?d = "dropWhile P v"
  have h: "\<not> P (hd ?d)" using False by (rule hd_dropWhile)
  have "hd ?d \<in> set (rev ?d)" using False by simp
  then have "dropWhile P (rev ?d @ rev ?a) = dropWhile P (rev ?d) @ rev ?a"
    using h by (rule dropWhile_append1)
  moreover have "rev v = rev ?d @ rev ?a"
    by (metis rev_append takeWhile_dropWhile_id)
  ultimately have "rev (dropWhile P (rev v)) = ?a @ rev (dropWhile P (rev ?d))" by simp
  moreover have "\<And>x. x \<in> set ?a \<Longrightarrow> P x" by (rule set_takeWhileD [THEN conjunct2])
  ultimately have "dropWhile P (rev (dropWhile P (rev v))) = dropWhile P (rev (dropWhile P (rev ?d)))"
    by (simp add: dropWhile_append2)
  also have "\<dots> = rev (dropWhile P (rev ?d))"
    using rtrim_keeps_head [of "dropWhile P v" P, OF False h] h by simp
  finally show ?thesis .
qed

lemma trim_rtrim: "trim (rev (dropWhile is_ws (rev v))) = trim v"
  by (simp add: trim_def ltrim_rtrim_commute)

lemma trim_key: "env_key_ok k \<Longrightarrow> trim k = k"
proof -
  assume ok: "env_key_ok k"
  then have k: "k \<noteq> []" "\<not> is_ws (hd k)" "\<not> is_ws (last k)" by (simp_all add: env_key_ok_def)
  then have 1: "dropWhile is_ws k = k" by (simp add: dropWhile_eq_self_iff)
  from k have "\<not> is_ws (hd (rev k))" by (simp add: hd_rev)
  then have "dropWhile is_ws (rev k) = rev k" by (simp add: dropWhile_eq_self_iff)
  with 1 show ?thesis by (simp add: trim_def)
qed

lemma trim_key_value:
  assumes "env_key_ok k"
  shows "trim (k @ CHR ''='' # v) = k @ CHR ''='' # rev (dropWhile is_ws (rev v))"
proof -
  from assms have k: "k \<noteq> []" "\<not> is_ws (hd k)" by (simp_all add: env_key_ok_def)
  then have 1: "dropWhile is_ws (k @ CHR ''='' # v) = k @ CHR ''='' # v"
    by (simp add: dropWhile_eq_self_iff)
  have e: "\<not> is_ws CHR ''=''" by (simp add: is_ws_def)
  have "dropWhile is_ws (rev v @ CHR ''='' # rev k) = dropWhile is_ws (rev v) @ CHR ''='' # rev k"
    using e by (rule dropWhile_append3)
  with 1 show ?thesis by (simp add: trim_def)
qed

lemma indexOf_first: "c \<notin> set k \<Longrightarrow> indexOf c (k @ c # w) = Some (length k)"
  by (induction k) auto

lemma env_entry_assignment:
  assumes "env_key_ok k"
  shows "env_entry (k @ CHR ''='' # v) = Some (k, trim v)"
proof -
  let ?w = "rev (dropWhile is_ws (rev v))"
  from assms have k: "k \<noteq> []" "hd k \<noteq> CHR ''#''" "CHR ''='' \<notin> set k"
    by (simp_all add: env_key_ok_def)
  have t: "trim (k @ CHR ''='' # v) = k @ CHR ''='' # ?w"
    using assms by (rule trim_key_value)
  have s: "\<not> startsWith (k @ CHR ''='' # ?w) ''#''"
    using k by (cases k) (simp_all add: startsWith_def)
  have i: "indexOf CHR ''='' (k @ CHR ''='' # ?w) = Some (length k)"
    using k(3) by (rule indexOf_first)
  show ?thesis
    unfolding env_entry_def t using k(1) s i
    by (simp add: Let_def trim_key [OF assms] trim_rtrim)
qed

lemma line_key_assignment: "env_key_ok k \<Longrightarrow> line_key (k @ CHR ''='' # v) = Some k"
  by (simp add: line_key_def env_entry_assignment)

lemma set_map_filter: "set (List.map_filter f xs) = {y. \<exists>x \<in> set xs. f x = Some y}"
  by (induction xs) (auto split: option.splits)

lemma split_lines_no_sep: "l \<in> set (split d xs) \<Longrightarrow> d \<notin> set l"
proof (induction xs arbitrary: l)
  case Nil
  then show ?case by simp
next
  case (Cons c cs)
  obtain m ms where s: "split d cs = m # ms"
    using split_not_Nil [of d cs] by (cases "split d cs") auto
  with Cons show ?case by (auto split: if_splits)
qed

lemma set_join: "l \<in> set ls \<Longrightarrow> set l \<subseteq> set (join d ls)"
  by (induction d ls rule: join.induct) auto

lemma parseEnvValues_line_blank: "parseEnvValues_line vals [] = vals"
  by (simp add: parseEnvValues_line_entry env_entry_Nil)

lemma foldl_parse_blanks: "foldl parseEnvValues_line m (replicate n []) = m"
  by (induction n) (simp_all add: parseEnvValues_line_blank)

lemma foldl_parse_blank:
  "foldl parseEnvValues_line m (ls @ replicate n []) = foldl parseEnvValues_line m ls"
  by (simp add: foldl_parse_blanks)

lemma foldl_parse_replace_trailing:
  "foldl parseEnvValues_line m (split NL (replace_trailing_newlines s))
     = foldl parseEnvValues_line m (split NL s)"
proof -
  let ?t = "rev (dropWhile (\<lambda>c. c = NL) (rev s))"
  obtain n where n: "split NL s = split NL ?t @ replicate n []"
    using split_stripped [of s] by blast
  have "foldl parseEnvValues_line m (split NL (replace_trailing_newlines s))
      = foldl parseEnvValues_line m (split NL ?t @ replicate 1 [])"
    by (simp add: split_replace_trailing)
  also have "\<dots> = foldl parseEnvValues_line m (split NL ?t)" by (rule foldl_parse_blank)
  also have "\<dots> = foldl parseEnvValues_line m (split NL s)"
    unfolding n by (rule foldl_parse_blank [symmetric])
  finally show ?thesis .
qed

lemma parse_line_at:
  "parseEnvValues_line m l k =
     (case env_entry l of
        None \<Rightarrow> m k
      | Some (k', v) \<Rightarrow> if k' = k \<and> k \<noteq> ''__proto__'' then Some v else m k)"
  by (auto simp: parseEnvValues_line_entry split: option.splits)

lemma foldl_parse_determined:
  assumes "\<forall>l \<in> set ls. \<forall>w. env_entry l = Some (k, w) \<longrightarrow> w = v" and "k \<noteq> ''__proto__''"
  shows "foldl parseEnvValues_line m ls k =
           (if \<exists>l \<in> set ls. line_key l = Some k then Some v else m k)"
  using assms(1)
proof (induction ls arbitrary: m)
  case Nil
  then show ?case by simp
next
  case (Cons l ls)
  have s: "parseEnvValues_line m l k = (if line_key l = Some k then Some v else m k)"
    using Cons.prems assms(2) by (auto simp: parse_line_at line_key_def split: option.splits)
  from Cons.prems have "\<forall>l \<in> set ls. \<forall>w. env_entry l = Some (k, w) \<longrightarrow> w = v" by simp
  from Cons.IH [OF this, of "parseEnvValues_line m l"] s show ?case by simp
qed

lemma foldl_parse_frame:
  assumes "\<forall>l \<in> set ls. line_key l \<noteq> Some k"
  shows "foldl parseEnvValues_line m ls k = m k"
  using assms
proof (induction ls arbitrary: m)
  case Nil
  then show ?case by simp
next
  case (Cons l ls)
  from Cons.prems have "parseEnvValues_line m l k = m k"
    by (auto simp: parse_line_at line_key_def split: option.splits)
  with Cons show ?case by simp
qed

lemma foldl_parse_cong:
  assumes "list_all2 (\<lambda>l l'. env_entry l = env_entry l' \<or>
              (line_key l \<noteq> Some k \<and> line_key l' \<noteq> Some k)) ls ls'"
    and "m k = m' k"
  shows "foldl parseEnvValues_line m ls k = foldl parseEnvValues_line m' ls' k"
  using assms
proof (induction arbitrary: m m' rule: list_all2_induct)
  case Nil
  then show ?case by simp
next
  case (Cons l ls l' ls')
  have "parseEnvValues_line m l k = parseEnvValues_line m' l' k"
    using Cons.hyps(1) Cons.prems
    by (auto simp: parse_line_at line_key_def split: option.splits)
  from Cons.IH [of "parseEnvValues_line m l" "parseEnvValues_line m' l'", OF this] show ?case by simp
qed

lemma js_in_own:
  assumes "k \<in> set object_prototype_keys \<longrightarrow> k \<in> fst ` set updates"
  shows "js_in k updates = (k \<in> fst ` set updates)"
  using assms by (auto simp: js_in_def)

lemma updateEnvFile_line_spec:
  assumes "\<forall>k. line_key line = Some k \<longrightarrow> k \<in> set object_prototype_keys \<longrightarrow> k \<in> fst ` set updates"
  shows "updateEnvFile_line inh updates line = spec_line updates line"
proof (cases "line_key line")
  case None
  then show ?thesis by (simp add: updateEnvFile_line_key spec_line_def)
next
  case (Some k)
  with assms have "js_in k updates = (k \<in> fst ` set updates)" by (simp add: js_in_own)
  moreover have "(k \<in> fst ` set updates) = (map_of updates k \<noteq> None)"
    by (simp add: map_of_eq_None_iff)
  ultimately show ?thesis
    using Some by (auto simp: updateEnvFile_line_key spec_line_def js_get_def)
qed

lemma updateEnvFile_written_Some:
  "updateEnvFile_written updates l = Some k \<longleftrightarrow> line_key l = Some k \<and> js_in k updates"
  by (auto simp: updateEnvFile_written_key split: option.splits if_splits)

lemma written_own:
  assumes "k \<in> fst ` set updates"
  shows "k \<in> set (List.map_filter (updateEnvFile_written updates) lines)
         \<longleftrightarrow> k \<in> set (List.map_filter line_key lines)"
proof -
  from assms have "js_in k updates" by (simp add: js_in_def)
  then show ?thesis
    by (simp add: set_map_filter updateEnvFile_written_Some)
qed

lemma updateEnvFile_spec:
  assumes "\<forall>line \<in> set (split NL (readEnvFile file)). \<forall>k. line_key line = Some k \<longrightarrow>
             k \<in> set object_prototype_keys \<longrightarrow> k \<in> fst ` set updates"
  shows "updateEnvFile inh updates file =
           replace_trailing_newlines (join NL
             (map (spec_line updates) (split NL (readEnvFile file)) @
              spec_appended updates (split NL (readEnvFile file))))"
proof -
  let ?lines = "split NL (readEnvFile file)"
  have 1: "map (updateEnvFile_line inh updates) ?lines = map (spec_line updates) ?lines"
    using assms by (intro map_cong refl updateEnvFile_line_spec) blast
  have 2: "filter (\<lambda>(k, val). k \<notin> set (List.map_filter (updateEnvFile_written updates) ?lines)) updates
         = filter (\<lambda>(k, v). k \<notin> set (List.map_filter line_key ?lines)) updates"
  proof (rule filter_cong [OF refl])
    fix e assume "e \<in> set updates"
    then have "fst e \<in> fst ` set updates" by simp
    from written_own [OF this, of ?lines]
    show "(case e of (k, val) \<Rightarrow> k \<notin> set (List.map_filter (updateEnvFile_written updates) ?lines))
        = (case e of (k, v) \<Rightarrow> k \<notin> set (List.map_filter line_key ?lines))"
      by (cases e) simp
  qed
  show ?thesis
    unfolding updateEnvFile_def Let_def 1 2 spec_appended_def ..
qed

lemma spec_line_cases:
  "spec_line updates line = line \<or>
   (\<exists>k v. line_key line = Some k \<and> (k, v) \<in> set updates \<and> spec_line updates line = k @ CHR ''='' # v)"
  by (auto simp: spec_line_def split: option.splits dest: map_of_SomeD)

lemma spec_appended_cases:
  "l \<in> set (spec_appended updates lines) \<Longrightarrow>
   \<exists>k v. (k, v) \<in> set updates \<and> l = k @ CHR ''='' # v"
  by (auto simp: spec_appended_def)

lemma written_lines_no_newline:
  assumes "\<forall>(k, v) \<in> set updates. NL \<notin> set k \<and> NL \<notin> set v"
    and "l \<in> set (map (spec_line updates) (split NL content) @ spec_appended updates (split NL content))"
  shows "NL \<notin> set l"
proof -
  from assms(2) consider
    line where "line \<in> set (split NL content)" "l = spec_line updates line"
    | "l \<in> set (spec_appended updates (split NL content))"
    by auto
  then show ?thesis
  proof cases
    case 1
    from spec_line_cases [of updates line] show ?thesis
    proof
      assume "spec_line updates line = line"
      with 1 show ?thesis by (simp add: split_lines_no_sep)
    next
      assume "\<exists>k v. line_key line = Some k \<and> (k, v) \<in> set updates \<and>
                spec_line updates line = k @ CHR ''='' # v"
      then obtain k v where "(k, v) \<in> set updates" "spec_line updates line = k @ CHR ''='' # v"
        by blast
      with assms(1) 1 show ?thesis by auto
    qed
  next
    case 2
    from spec_appended_cases [OF this] obtain k v where "(k, v) \<in> set updates" "l = k @ CHR ''='' # v"
      by blast
    with assms(1) show ?thesis by auto
  qed
qed

lemma written_lines_have_key:
  assumes "map_of updates k = Some v"
  shows "\<exists>l \<in> set (map (spec_line updates) lines @ spec_appended updates lines).
           l = k @ CHR ''='' # v"
proof (cases "k \<in> set (List.map_filter line_key lines)")
  case True
  then obtain line where "line \<in> set lines" "line_key line = Some k"
    by (auto simp: set_map_filter)
  with assms have "spec_line updates line = k @ CHR ''='' # v" "line \<in> set lines"
    by (simp_all add: spec_line_def)
  then show ?thesis by force
next
  case False
  from assms have "(k, v) \<in> set updates" by (rule map_of_SomeD)
  with False have "k @ CHR ''='' # v \<in> set (spec_appended updates lines)"
    by (force simp: spec_appended_def)
  then show ?thesis by simp
qed

lemma drop_trailing_blank_append:
  assumes "A \<noteq> []" and "last A \<noteq> []"
  shows "drop_trailing_blank (A @ replicate n []) = A"
proof -
  have "dropWhile (\<lambda>l. l = []) (replicate n [] @ rev A) = dropWhile (\<lambda>l. l = []) (rev A)"
    by (rule dropWhile_append2) simp
  also have "\<dots> = rev A"
    using assms by (simp add: dropWhile_eq_self_iff hd_rev)
  finally show ?thesis by (simp add: drop_trailing_blank_def)
qed

lemma stripped_not_blank:
  assumes "c \<in> set s" and "c \<noteq> d"
  shows "rev (dropWhile (\<lambda>x. x = d) (rev s)) \<noteq> [] \<and> last (rev (dropWhile (\<lambda>x. x = d) (rev s))) \<noteq> d"
proof -
  let ?r = "dropWhile (\<lambda>x. x = d) (rev s)"
  from assms have n: "?r \<noteq> []" by auto
  then have "hd ?r \<noteq> d" using hd_dropWhile [of "\<lambda>x. x = d" "rev s"] by simp
  with n show ?thesis by (simp add: last_rev)
qed

lemma split_written:
  assumes "ls \<noteq> []" and "\<forall>l \<in> set ls. NL \<notin> set l" and "l \<in> set ls" and "c \<in> set l"
  shows "split NL (replace_trailing_newlines (join NL ls)) = drop_trailing_blank ls @ [[]]
       \<and> (\<exists>body. replace_trailing_newlines (join NL ls) = body @ [NL] \<and> body \<noteq> [] \<and> last body \<noteq> NL)"
proof -
  let ?s = "join NL ls"
  let ?t = "rev (dropWhile (\<lambda>x. x = NL) (rev ?s))"
  from assms(2,3,4) have "c \<noteq> NL" by auto
  moreover from assms(3,4) have "c \<in> set ?s" using set_join [of l ls NL] by auto
  ultimately have t: "?t \<noteq> []" "last ?t \<noteq> NL" using stripped_not_blank [of c ?s NL] by simp_all
  then have l: "last (split NL ?t) \<noteq> []" by (simp add: last_split_Nil)
  have s: "split NL ?s = ls" using assms(1,2) by (rule split_join_lines)
  obtain n where "split NL ?s = split NL ?t @ replicate n []"
    using split_stripped [of ?s] by blast
  with s have "ls = split NL ?t @ replicate n []" by simp
  then have "drop_trailing_blank ls = drop_trailing_blank (split NL ?t @ replicate n [])"
    by (rule arg_cong)
  also have "\<dots> = split NL ?t"
    by (rule drop_trailing_blank_append [OF split_not_Nil l])
  finally have 1: "split NL (replace_trailing_newlines ?s) = drop_trailing_blank ls @ [[]]"
    by (simp add: split_replace_trailing)
  have 2: "\<exists>body. replace_trailing_newlines ?s = body @ [NL] \<and> body \<noteq> [] \<and> last body \<noteq> NL"
    using t by (auto simp: replace_trailing_newlines_def)
  from 1 2 show ?thesis ..
qed

lemma spec_line_entry:
  assumes "\<forall>(k, v) \<in> set updates. env_key_ok k"
  shows "env_entry (spec_line updates line) = env_entry line \<or>
         (\<exists>k v. map_of updates k = Some v \<and> line_key line = Some k \<and>
                env_entry (spec_line updates line) = Some (k, trim v))"
proof (cases "line_key line")
  case None
  then show ?thesis by (simp add: spec_line_def)
next
  case (Some k)
  show ?thesis
  proof (cases "map_of updates k")
    case None
    with Some show ?thesis by (simp add: spec_line_def)
  next
    case v: (Some v)
    then have "(k, v) \<in> set updates" by (rule map_of_SomeD)
    with assms have "env_key_ok k" by auto
    then have "env_entry (k @ CHR ''='' # v) = Some (k, trim v)" by (rule env_entry_assignment)
    with Some v show ?thesis by (simp add: spec_line_def)
  qed
qed

lemma spec_appended_entry:
  assumes "\<forall>(k, v) \<in> set updates. env_key_ok k" and "l \<in> set (spec_appended updates lines)"
  shows "\<exists>k v. (k, v) \<in> set updates \<and> env_entry l = Some (k, trim v)"
proof -
  from spec_appended_cases [OF assms(2)] obtain k v where
    kv: "(k, v) \<in> set updates" "l = k @ CHR ''='' # v" by blast
  with assms(1) have "env_key_ok k" by auto
  then have "env_entry (k @ CHR ''='' # v) = Some (k, trim v)" by (rule env_entry_assignment)
  with kv show ?thesis by blast
qed

lemma parse_written_updated:
  assumes ok: "\<forall>(k, v) \<in> set updates. env_key_ok k" and d: "distinct (map fst updates)"
    and kv: "map_of updates k = Some v"
  shows "foldl parseEnvValues_line m
           (map (spec_line updates) lines @ spec_appended updates lines) k = Some (trim v)"
proof -
  let ?L = "map (spec_line updates) lines @ spec_appended updates lines"
  from kv have "(k, v) \<in> set updates" by (rule map_of_SomeD)
  with ok have k: "env_key_ok k" by auto
  then have p: "k \<noteq> ''__proto__''" by (simp add: env_key_ok_def)
  have a: "\<forall>l \<in> set ?L. \<forall>w. env_entry l = Some (k, w) \<longrightarrow> w = trim v"
  proof (intro ballI allI impI)
    fix l w
    assume l: "l \<in> set ?L" and e: "env_entry l = Some (k, w)"
    from l consider line where "line \<in> set lines" "l = spec_line updates line"
      | "l \<in> set (spec_appended updates lines)" by auto
    then show "w = trim v"
    proof cases
      case 1
      from spec_line_entry [OF ok, of line] show ?thesis
      proof
        assume s: "env_entry (spec_line updates line) = env_entry line"
        with 1 e have "line_key line = Some k" by (simp add: line_key_def)
        with kv have "spec_line updates line = k @ CHR ''='' # v" by (simp add: spec_line_def)
        with 1 e env_entry_assignment [OF k, of v] show ?thesis by simp
      next
        assume "\<exists>k v. map_of updates k = Some v \<and> line_key line = Some k \<and>
                env_entry (spec_line updates line) = Some (k, trim v)"
        with 1 e kv show ?thesis by auto
      qed
    next
      case 2
      from spec_appended_entry [OF ok 2] obtain k' v' where
        m: "(k', v') \<in> set updates" and e': "env_entry l = Some (k', trim v')" by blast
      from map_of_is_SomeI [OF d m] have "map_of updates k' = Some v'" .
      with e e' kv show ?thesis by simp
    qed
  qed
  from written_lines_have_key [OF kv, of lines] obtain l where
    "l \<in> set ?L" "l = k @ CHR ''='' # v" by blast
  with line_key_assignment [OF k, of v] have b: "\<exists>l \<in> set ?L. line_key l = Some k" by auto
  from foldl_parse_determined [OF a p, of m] b show ?thesis by simp
qed

lemma parse_written_other:
  assumes ok: "\<forall>(k, v) \<in> set updates. env_key_ok k" and k: "k \<notin> fst ` set updates"
  shows "foldl parseEnvValues_line m
           (map (spec_line updates) lines @ spec_appended updates lines) k
         = foldl parseEnvValues_line m lines k"
proof -
  have "\<forall>l \<in> set (spec_appended updates lines). line_key l \<noteq> Some k"
  proof
    fix l assume "l \<in> set (spec_appended updates lines)"
    from spec_appended_entry [OF ok this] obtain k' v' where
      "(k', v') \<in> set updates" "env_entry l = Some (k', trim v')" by blast
    with k show "line_key l \<noteq> Some k" by (force simp: line_key_def)
  qed
  then have 1: "foldl parseEnvValues_line m
           (map (spec_line updates) lines @ spec_appended updates lines) k
         = foldl parseEnvValues_line m (map (spec_line updates) lines) k"
    by (simp add: foldl_parse_frame)
  have "\<forall>line \<in> set lines. env_entry (spec_line updates line) = env_entry line \<or>
          (line_key (spec_line updates line) \<noteq> Some k \<and> line_key line \<noteq> Some k)"
  proof
    fix line assume "line \<in> set lines"
    from spec_line_entry [OF ok, of line]
    show "env_entry (spec_line updates line) = env_entry line \<or>
          (line_key (spec_line updates line) \<noteq> Some k \<and> line_key line \<noteq> Some k)"
    proof
      assume "env_entry (spec_line updates line) = env_entry line"
      then show ?thesis ..
    next
      assume "\<exists>k v. map_of updates k = Some v \<and> line_key line = Some k \<and>
                env_entry (spec_line updates line) = Some (k, trim v)"
      then obtain k' v' where m: "map_of updates k' = Some v'" and l: "line_key line = Some k'"
        and e: "env_entry (spec_line updates line) = Some (k', trim v')" by blast
      from m have "k' \<in> fst ` set updates" by (force dest: map_of_SomeD)
      with k have "k' \<noteq> k" by blast
      moreover from e have "line_key (spec_line updates line) = Some k'" by (simp add: line_key_def)
      ultimately show ?thesis using l by simp
    qed
  qed
  then have "list_all2 (\<lambda>l l'. env_entry l = env_entry l' \<or>
              (line_key l \<noteq> Some k \<and> line_key l' \<noteq> Some k)) (map (spec_line updates) lines) lines"
    by (simp add: list_all2_map1 list_all2_same)
  from foldl_parse_cong [OF this, of m m] have
    "foldl parseEnvValues_line m (map (spec_line updates) lines) k = foldl parseEnvValues_line m lines k"
    by simp
  with 1 show ?thesis by simp
qed

lemmas env_eval =
  parseEnvValues_def parseEnvValues_line_def updateEnvFile_def updateEnvFile_line_def
  updateEnvFile_written_def env_entry_def line_key_def env_key_ok_def trim_def is_ws_def
  startsWith_def js_in_def js_get_def object_prototype_keys_def replace_trailing_newlines_def
  readEnvFile_def Let_def

text \<open>
  C10 (as amended). Let the updates be a non-empty map with distinct keys whose keys and
  values contain no line feed, and let no line of the prior file have a key that names an
  inherited property of \<open>Object.prototype\<close> without being a key of the updates. Then the
  lines of the new content are the prior lines in their order, where a line whose key is
  in the updates is replaced in place by \<open>key=value\<close> and every other line (blank,
  comment, other key) is unchanged, followed by \<open>key=value\<close> for the update keys that no
  line had, with the empty lines at the end removed and one empty piece after the final
  line feed; the content ends in exactly one line feed. If moreover every update key
  reads back as itself (\<open>env_key_ok\<close>), \<open>parseEnvValues\<close> of the new content maps each
  updated key to its new value with the white space at its ends trimmed, and every other
  key to its prior value.
\<close>

theorem updateEnvFile_lines_and_values:
  assumes U: "updates \<noteq> []" and D: "distinct (map fst updates)"
    and N: "\<forall>(k, v) \<in> set updates. NL \<notin> set k \<and> NL \<notin> set v"
    and H: "\<forall>line \<in> set (split NL (readEnvFile file)). \<forall>k. line_key line = Some k \<longrightarrow>
              k \<in> set object_prototype_keys \<longrightarrow> k \<in> fst ` set updates"
  shows "split NL (updateEnvFile inh updates file) =
           drop_trailing_blank
             (map (spec_line updates) (split NL (readEnvFile file)) @
              spec_appended updates (split NL (readEnvFile file))) @ [[]]
       \<and> (\<exists>body. updateEnvFile inh updates file = body @ [NL] \<and> body \<noteq> [] \<and> last body \<noteq> NL)
       \<and> ((\<forall>(k, v) \<in> set updates. env_key_ok k) \<longrightarrow>
            (\<forall>k v. map_of updates k = Some v \<longrightarrow>
               parseEnvValues (updateEnvFile inh updates file) k = Some (trim v)) \<and>
            (\<forall>k. k \<notin> fst ` set updates \<longrightarrow>
               parseEnvValues (updateEnvFile inh updates file) k
                 = parseEnvValues (readEnvFile file) k))"
proof -
  let ?lines = "split NL (readEnvFile file)"
  let ?L = "map (spec_line updates) ?lines @ spec_appended updates ?lines"
  have u: "updateEnvFile inh updates file = replace_trailing_newlines (join NL ?L)"
    using H by (rule updateEnvFile_spec)
  have ne: "?L \<noteq> []" by (simp add: split_not_Nil)
  have nn: "\<forall>l \<in> set ?L. NL \<notin> set l"
    using written_lines_no_newline [OF N] by blast
  from U obtain k v where "(k, v) \<in> set updates" by (cases updates) auto
  with D have "map_of updates k = Some v" by simp
  from written_lines_have_key [OF this, of ?lines]
  have kl: "k @ CHR ''='' # v \<in> set ?L" by blast
  have "CHR ''='' \<in> set (k @ CHR ''='' # v)" by simp
  from split_written [OF ne nn kl this]
  have 12: "split NL (updateEnvFile inh updates file) = drop_trailing_blank ?L @ [[]]"
    "\<exists>body. updateEnvFile inh updates file = body @ [NL] \<and> body \<noteq> [] \<and> last body \<noteq> NL"
    unfolding u by blast+
  have p: "foldl parseEnvValues_line Map.empty (split NL (updateEnvFile inh updates file))
      = foldl parseEnvValues_line Map.empty ?L"
    unfolding u foldl_parse_replace_trailing split_join_lines [OF ne nn] ..
  have 3: "(\<forall>(k, v) \<in> set updates. env_key_ok k) \<longrightarrow>
            (\<forall>k v. map_of updates k = Some v \<longrightarrow>
               parseEnvValues (updateEnvFile inh updates file) k = Some (trim v)) \<and>
            (\<forall>k. k \<notin> fst ` set updates \<longrightarrow>
               parseEnvValues (updateEnvFile inh updates file) k
                 = parseEnvValues (readEnvFile file) k)"
  proof (intro impI conjI allI)
    fix k v
    assume "\<forall>(k, v) \<in> set updates. env_key_ok k" and "map_of updates k = Some v"
    then show "parseEnvValues (updateEnvFile inh updates file) k = Some (trim v)"
      unfolding parseEnvValues_def p using D by (intro parse_written_updated)
  next
    fix k
    assume "\<forall>(k, v) \<in> set updates. env_key_ok k" and "k \<notin> fst ` set updates"
    then show "parseEnvValues (updateEnvFile inh updates file) k = parseEnvValues (readEnvFile file) k"
      unfolding parseEnvValues_def p by (rule parse_written_other)
  qed
  from 12 3 show ?thesis by blast
qed

theorem updateEnvFile_lines_and_values_witness:
  "[(''A'', ''2''), (''B'', '' 3'')] \<noteq> []
   \<and> distinct (map fst [(''A'', ''2''), (''B'', '' 3'')])
   \<and> split NL (updateEnvFile node_inherited [(''A'', ''2''), (''B'', '' 3'')]
        (Some (''# c'' @ [NL] @ ''A=1'' @ [NL] @ ''C=5'' @ [NL, NL])))
       = [''# c'', ''A=2'', ''C=5'', [], [], ''B= 3'', []]
   \<and> parseEnvValues (updateEnvFile node_inherited [(''A'', ''2''), (''B'', '' 3'')]
        (Some (''# c'' @ [NL] @ ''A=1'' @ [NL] @ ''C=5'' @ [NL, NL]))) ''A'' = Some ''2''
   \<and> parseEnvValues (updateEnvFile node_inherited [(''A'', ''2''), (''B'', '' 3'')]
        (Some (''# c'' @ [NL] @ ''A=1'' @ [NL] @ ''C=5'' @ [NL, NL]))) ''B'' = Some ''3''
   \<and> parseEnvValues (updateEnvFile node_inherited [(''A'', ''2''), (''B'', '' 3'')]
        (Some (''# c'' @ [NL] @ ''A=1'' @ [NL] @ ''C=5'' @ [NL, NL]))) ''C'' = Some ''5''"
proof -
  let ?u = "[(''A'', ''2''), (''B'', '' 3'')]"
  let ?f = "Some (''# c'' @ [NL] @ ''A=1'' @ [NL] @ ''C=5'' @ [NL, NL])"
  have U: "?u \<noteq> []" by simp
  have D: "distinct (map fst ?u)" by simp
  have N: "\<forall>(k, v) \<in> set ?u. NL \<notin> set k \<and> NL \<notin> set v" by simp
  have S: "split NL (readEnvFile ?f) = [''# c'', ''A=1'', ''C=5'', [], []]"
    by (simp add: readEnvFile_def)
  have H: "\<forall>line \<in> set (split NL (readEnvFile ?f)). \<forall>k. line_key line = Some k \<longrightarrow>
              k \<in> set object_prototype_keys \<longrightarrow> k \<in> fst ` set ?u"
    unfolding S by (simp add: env_eval)
  have K: "\<forall>(k, v) \<in> set ?u. env_key_ok k" by (simp add: env_key_ok_def is_ws_def)
  have P: "parseEnvValues (readEnvFile ?f) ''C'' = Some ''5''"
    by (simp add: env_eval)
  have L: "drop_trailing_blank (map (spec_line ?u) (split NL (readEnvFile ?f)) @
              spec_appended ?u (split NL (readEnvFile ?f))) @ [[]]
       = [''# c'', ''A=2'', ''C=5'', [], [], ''B= 3'', []]"
    unfolding S by (simp add: env_eval spec_line_def spec_appended_def drop_trailing_blank_def)
  have T: "trim ''2'' = ''2''" "trim '' 3'' = ''3''" by (simp_all add: trim_def is_ws_def)
  from updateEnvFile_lines_and_values [OF U D N H, of node_inherited] K
  have 1: "split NL (updateEnvFile node_inherited ?u ?f)
        = drop_trailing_blank (map (spec_line ?u) (split NL (readEnvFile ?f)) @
              spec_appended ?u (split NL (readEnvFile ?f))) @ [[]]"
    and 2: "\<forall>k v. map_of ?u k = Some v \<longrightarrow>
               parseEnvValues (updateEnvFile node_inherited ?u ?f) k = Some (trim v)"
    and 3: "\<forall>k. k \<notin> fst ` set ?u \<longrightarrow>
               parseEnvValues (updateEnvFile node_inherited ?u ?f) k = parseEnvValues (readEnvFile ?f) k"
    by blast+
  from 2 have a: "parseEnvValues (updateEnvFile node_inherited ?u ?f) ''A'' = Some (trim ''2'')"
    by simp
  from 2 have b: "parseEnvValues (updateEnvFile node_inherited ?u ?f) ''B'' = Some (trim '' 3'')"
    by simp
  from 3 have c: "parseEnvValues (updateEnvFile node_inherited ?u ?f) ''C'' = parseEnvValues (readEnvFile ?f) ''C''"
    by simp
  show ?thesis
    using U D 1 a b c unfolding L T P by simp
qed

text \<open>
  The claim as first stated fails in three ways: the blank lines at the end of the prior
  file are not kept (the final replace collapses them into one line feed); a new value
  with white space at its ends is read back trimmed; and a new value that contains a line
  feed writes further lines, which can change the value of another key.
\<close>

theorem updateEnvFile_lines_and_values_counterexample:
  "updateEnvFile node_inherited [(''A'', ''2'')] (Some (''A=1'' @ [NL, NL, NL])) = ''A=2'' @ [NL]
   \<and> parseEnvValues (updateEnvFile node_inherited [(''A'', '' 1'')] None) ''A'' = Some ''1''
   \<and> parseEnvValues (readEnvFile (Some ''B=2'')) ''B'' = Some ''2''
   \<and> parseEnvValues (updateEnvFile node_inherited [(''A'', ''1'' @ [NL] @ ''B=9'')] (Some ''B=2'')) ''B''
       = Some ''9''"
  by (simp add: env_eval)

text \<open>
  The test \<open>key in updates\<close> also holds for the names that every object inherits. A line
  of the file with such a key is rewritten although the key is not among the updates; the
  amended statement above leaves these files out.
\<close>

lemma updateEnvFile_line_inherited:
  "updateEnvFile_line inh [(''A'', ''1'')] ''toString=x'' = ''toString='' @ inh ''toString''"
  by (simp add: updateEnvFile_line_def trim_def is_ws_def startsWith_def js_in_def js_get_def
        object_prototype_keys_def Let_def)

section \<open>Empty values\<close>

lemma map_of_replace_other:
  "k' \<noteq> k \<Longrightarrow> map_of (map (\<lambda>(a, b). if a = k then (a, s) else (a, b)) xs) k' = map_of xs k'"
  by (induction xs) auto

lemma map_of_replace_same:
  "k \<in> fst ` set xs \<Longrightarrow> map_of (map (\<lambda>(a, b). if a = k then (a, s) else (a, b)) xs) k = Some s"
  by (induction xs) auto

lemma map_of_obj_set: "map_of (obj_set k s fl) k' = (if k' = k then Some s else map_of fl k')"
proof (cases "k \<in> fst ` set fl")
  case False
  then have "map_of fl k = None" by (simp add: map_of_eq_None_iff)
  with False show ?thesis by (simp add: obj_set_def map_add_def split: option.splits)
next
  case True
  then show ?thesis
    by (simp add: obj_set_def map_of_replace_other map_of_replace_same)
qed

lemma router_post_entry_frame:
  assumes "fst e \<noteq> k"
  shows "map_of (fst (router_post_entry acc e)) k = map_of (fst acc) k
       \<and> snd (snd (router_post_entry acc e)) k = snd (snd acc) k"
  using assms
  by (cases acc; cases e) (auto simp: router_post_entry_def map_of_obj_set split: json.splits)

lemma foldl_router_post_entry_frame:
  assumes "k \<notin> fst ` set es"
  shows "map_of (fst (foldl router_post_entry acc es)) k = map_of (fst acc) k
       \<and> snd (snd (foldl router_post_entry acc es)) k = snd (snd acc) k"
  using assms
proof (induction es arbitrary: acc)
  case Nil
  then show ?case by simp
next
  case (Cons e es)
  then have "fst e \<noteq> k" "k \<notin> fst ` set es" by auto
  from router_post_entry_frame [OF this(1), of acc] Cons.IH [OF this(2), of "router_post_entry acc e"]
  show ?case by simp
qed

lemma router_post_entry_applied:
  assumes "k \<in> ALLOWED_KEYS"
  shows "map_of (fst (router_post_entry acc (k, JStr s))) k = Some s
       \<and> snd (snd (router_post_entry acc (k, JStr s))) k = Some (env_text s)"
  using assms by (cases acc) (simp add: router_post_entry_def map_of_obj_set)

lemma foldl_router_post_entry_applied:
  assumes "distinct (map fst es)" and "(k, JStr s) \<in> set es" and "k \<in> ALLOWED_KEYS"
  shows "map_of (fst (foldl router_post_entry acc es)) k = Some s
       \<and> snd (snd (foldl router_post_entry acc es)) k = Some (env_text s)"
  using assms(1,2)
proof (induction es arbitrary: acc)
  case Nil
  then show ?case by simp
next
  case (Cons e es)
  show ?case
  proof (cases "e = (k, JStr s)")
    case True
    with Cons.prems have "k \<notin> fst ` set es" by auto
    from foldl_router_post_entry_frame [OF this, of "router_post_entry acc (k, JStr s)"]
      router_post_entry_applied [OF assms(3), of acc s] True
    show ?thesis by simp
  next
    case False
    with Cons.prems have "distinct (map fst es)" "(k, JStr s) \<in> set es" by auto
    from Cons.IH [OF this, of "router_post_entry acc e"] show ?thesis by simp
  qed
qed

lemma split_join_member:
  assumes "x \<in> set ls" and "d \<notin> set x"
  shows "x \<in> set (split d (join d ls))"
proof -
  from assms(1) have "ls \<noteq> []" by auto
  then have "split d (join d ls) = concat (map (split d) ls)" by (rule split_join)
  moreover have "x \<in> set (split d x)" using assms(2) by (simp add: split_no_sep)
  ultimately show ?thesis using assms(1) by auto
qed

lemma split_replace_trailing_member:
  assumes "x \<in> set (split NL s)" and "x \<noteq> []"
  shows "x \<in> set (split NL (replace_trailing_newlines s))"
proof -
  obtain n where "split NL s = split NL (rev (dropWhile (\<lambda>c. c = NL) (rev s))) @ replicate n []"
    using split_stripped [of s] by blast
  with assms have "x \<in> set (split NL (rev (dropWhile (\<lambda>c. c = NL) (rev s))))" by auto
  then show ?thesis by (simp add: split_replace_trailing)
qed

lemma updateEnvFile_writes_line:
  assumes "map_of updates k = Some v" and "NL \<notin> set k" and "NL \<notin> set v"
  shows "k @ ''='' @ v \<in> set (split NL (updateEnvFile inh updates file))"
proof -
  let ?lines = "split NL (readEnvFile file)"
  let ?written = "List.map_filter (updateEnvFile_written updates) ?lines"
  let ?L = "map (updateEnvFile_line inh updates) ?lines @
            map (\<lambda>(k, val). k @ ''='' @ val) (filter (\<lambda>(k, val). k \<notin> set ?written) updates)"
  from assms(1) have m: "(k, v) \<in> set updates" by (rule map_of_SomeD)
  then have own: "js_in k updates" by (force simp: js_in_def)
  have "k @ ''='' @ v \<in> set ?L"
  proof (cases "k \<in> set ?written")
    case True
    then obtain line where l: "line \<in> set ?lines" "line_key line = Some k"
      by (auto simp: set_map_filter updateEnvFile_written_Some)
    with own assms(1) have "updateEnvFile_line inh updates line = k @ ''='' @ v"
      by (simp add: updateEnvFile_line_key js_get_def)
    with l(1) show ?thesis by force
  next
    case False
    with m have "(k, v) \<in> set (filter (\<lambda>(k, val). k \<notin> set ?written) updates)" by simp
    then have "k @ ''='' @ v \<in> set (map (\<lambda>(k, val). k @ ''='' @ val)
        (filter (\<lambda>(k, val). k \<notin> set ?written) updates))"
      by (force simp del: set_filter)
    then show ?thesis by simp
  qed
  moreover have "NL \<notin> set (k @ ''='' @ v)" using assms(2,3) by simp
  ultimately have "k @ ''='' @ v \<in> set (split NL (join NL ?L))" by (rule split_join_member)
  moreover have "k @ ''='' @ v \<noteq> []" by simp
  ultimately have "k @ ''='' @ v \<in> set (split NL (replace_trailing_newlines (join NL ?L)))"
    by (rule split_replace_trailing_member)
  then show ?thesis by (simp add: updateEnvFile_def Let_def)
qed

lemma allowed_key_ok: "k \<in> ALLOWED_KEYS \<Longrightarrow> env_key_ok k"
  by (auto simp: ALLOWED_KEYS_def SETTINGS_SCHEMA_def env_key_ok_def is_ws_def)

lemma allowed_key_not_inherited: "k \<in> ALLOWED_KEYS \<Longrightarrow> k \<notin> set object_prototype_keys"
  by (auto simp: ALLOWED_KEYS_def SETTINGS_SCHEMA_def object_prototype_keys_def)

lemma set_obj_set: "set (obj_set k s fl) \<subseteq> insert (k, s) (set fl)"
  by (auto simp: obj_set_def split: if_splits)

lemma fst_set_obj_set: "fst ` set (obj_set k s fl) = insert k (fst ` set fl)"
  by (force simp: obj_set_def split: if_splits)

lemma map_fst_replace:
  "map fst (map (\<lambda>(k', v'). if k' = k then (k', s) else (k', v')) xs) = map fst xs"
  by (induction xs) auto

lemma distinct_obj_set: "distinct (map fst fl) \<Longrightarrow> distinct (map fst (obj_set k s fl))"
  unfolding obj_set_def by (simp add: map_fst_replace del: map_map)

lemma router_post_entry_filtered:
  assumes "distinct (map fst (fst acc))" and "fst ` set (fst acc) \<subseteq> ALLOWED_KEYS"
    and "\<forall>(k, s) \<in> set (fst acc). (k, JStr s) \<in> S" and "e \<in> S"
  shows "distinct (map fst (fst (router_post_entry acc e)))
       \<and> fst ` set (fst (router_post_entry acc e)) \<subseteq> ALLOWED_KEYS
       \<and> (\<forall>(k, s) \<in> set (fst (router_post_entry acc e)). (k, JStr s) \<in> S)"
proof -
  obtain fl rn env where acc: "acc = (fl, rn, env)" by (cases acc) auto
  obtain k v where e: "e = (k, v)" by (cases e) auto
  show ?thesis
  proof (cases "k \<in> ALLOWED_KEYS \<and> (\<exists>s. v = JStr s)")
    case False
    then have "router_post_entry acc e = acc"
      unfolding acc e by (cases v) (simp_all add: router_post_entry_def)
    with assms show ?thesis by simp
  next
    case True
    then obtain s where s: "v = JStr s" and k: "k \<in> ALLOWED_KEYS" by blast
    then have f: "fst (router_post_entry acc e) = obj_set k s fl"
      unfolding acc e by (simp add: router_post_entry_def)
    from assms(4) e s have "(k, JStr s) \<in> S" by simp
    with assms(3) acc set_obj_set [of k s fl]
    have "\<forall>(k', s') \<in> set (obj_set k s fl). (k', JStr s') \<in> S"
      by auto
    with assms(1,2) acc k show ?thesis
      unfolding f by (simp add: distinct_obj_set fst_set_obj_set)
  qed
qed

lemma foldl_router_post_entry_filtered:
  assumes "distinct (map fst (fst acc))" and "fst ` set (fst acc) \<subseteq> ALLOWED_KEYS"
    and "\<forall>(k, s) \<in> set (fst acc). (k, JStr s) \<in> S" and "set es \<subseteq> S"
  shows "distinct (map fst (fst (foldl router_post_entry acc es)))
       \<and> fst ` set (fst (foldl router_post_entry acc es)) \<subseteq> ALLOWED_KEYS
       \<and> (\<forall>(k, s) \<in> set (fst (foldl router_post_entry acc es)). (k, JStr s) \<in> S)"
  using assms
proof (induction es arbitrary: acc)
  case Nil
  then show ?case by simp
next
  case (Cons e es)
  from Cons.prems(4) have h: "e \<in> S" and t: "set es \<subseteq> S" by simp_all
  from router_post_entry_filtered [of acc S e, OF Cons.prems(1,2,3) h]
  have a: "distinct (map fst (fst (router_post_entry acc e)))"
    and b: "fst ` set (fst (router_post_entry acc e)) \<subseteq> ALLOWED_KEYS"
    and c: "\<forall>(k, s) \<in> set (fst (router_post_entry acc e)). (k, JStr s) \<in> S" by blast+
  from Cons.IH [of "router_post_entry acc e", OF a b c t] show ?case by simp
qed

lemma parseEnvValues_updateEnvFile:
  assumes N: "\<forall>(k, v) \<in> set updates. NL \<notin> set k \<and> NL \<notin> set v"
    and H: "\<forall>line \<in> set (split NL (readEnvFile file)). \<forall>k. line_key line = Some k \<longrightarrow>
              k \<in> set object_prototype_keys \<longrightarrow> k \<in> fst ` set updates"
  shows "parseEnvValues (updateEnvFile inh updates file) =
           foldl parseEnvValues_line Map.empty
             (map (spec_line updates) (split NL (readEnvFile file)) @
              spec_appended updates (split NL (readEnvFile file)))"
proof -
  let ?lines = "split NL (readEnvFile file)"
  let ?L = "map (spec_line updates) ?lines @ spec_appended updates ?lines"
  have u: "updateEnvFile inh updates file = replace_trailing_newlines (join NL ?L)"
    using H by (rule updateEnvFile_spec)
  have ne: "?L \<noteq> []" by (simp add: split_not_Nil)
  have nn: "\<forall>l \<in> set ?L. NL \<notin> set l"
    using written_lines_no_newline [OF N] by blast
  show ?thesis
    unfolding parseEnvValues_def u foldl_parse_replace_trailing split_join_lines [OF ne nn] ..
qed

lemma set_trim: "set (trim s) \<subseteq> set s"
proof -
  have "set (dropWhile is_ws (rev (dropWhile is_ws s))) \<subseteq> set (rev (dropWhile is_ws s))"
    by (auto dest: set_dropWhileD)
  also have "\<dots> \<subseteq> set s" by (auto dest: set_dropWhileD)
  finally show ?thesis by (simp add: trim_def)
qed

lemma line_key_subset: "line_key line = Some k \<Longrightarrow> set k \<subseteq> set line"
proof -
  assume "line_key line = Some k"
  then obtain i where "k = trim (take i (trim line))"
    by (auto simp: line_key_def env_entry_def Let_def split: if_splits option.splits)
  moreover have "set (trim (take i (trim line))) \<subseteq> set (take i (trim line))" by (rule set_trim)
  moreover have "set (take i (trim line)) \<subseteq> set (trim line)" by (rule set_take_subset)
  moreover have "set (trim line) \<subseteq> set line" by (rule set_trim)
  ultimately show ?thesis by blast
qed

lemma env_entry_assignment_shape:
  assumes k: "k \<noteq> []" "\<not> is_ws (hd k)" "\<not> is_ws (last k)" "CHR ''='' \<notin> set k" "hd k \<noteq> CHR ''#''"
  shows "env_entry (k @ CHR ''='' # v) = Some (k, trim v)"
proof -
  let ?w = "rev (dropWhile is_ws (rev v))"
  from k have 1: "dropWhile is_ws (k @ CHR ''='' # v) = k @ CHR ''='' # v"
    by (simp add: dropWhile_eq_self_iff)
  have e: "\<not> is_ws CHR ''=''" by (simp add: is_ws_def)
  have "dropWhile is_ws (rev v @ CHR ''='' # rev k) = dropWhile is_ws (rev v) @ CHR ''='' # rev k"
    using e by (rule dropWhile_append3)
  with 1 have t: "trim (k @ CHR ''='' # v) = k @ CHR ''='' # ?w" by (simp add: trim_def)
  from k have 2: "dropWhile is_ws k = k" by (simp add: dropWhile_eq_self_iff)
  from k have "\<not> is_ws (hd (rev k))" by (simp add: hd_rev)
  then have "dropWhile is_ws (rev k) = rev k" by (simp add: dropWhile_eq_self_iff)
  with 2 have tk: "trim k = k" by (simp add: trim_def)
  have s: "\<not> startsWith (k @ CHR ''='' # ?w) ''#''"
    using k by (cases k) (simp_all add: startsWith_def)
  have i: "indexOf CHR ''='' (k @ CHR ''='' # ?w) = Some (length k)"
    using k(4) by (rule indexOf_first)
  show ?thesis
    unfolding env_entry_def t using k(1) s i
    by (simp add: Let_def tk trim_rtrim)
qed

lemma inherited_key_entry:
  assumes "k \<in> set object_prototype_keys"
  shows "env_entry (k @ CHR ''='' # v) = Some (k, trim v)"
proof (rule env_entry_assignment_shape)
  from assms show "k \<noteq> []" by (auto simp: object_prototype_keys_def)
  from assms show "\<not> is_ws (hd k)" by (auto simp: object_prototype_keys_def is_ws_def)
  from assms show "\<not> is_ws (last k)" by (auto simp: object_prototype_keys_def is_ws_def)
  from assms show "CHR ''='' \<notin> set k" by (auto simp: object_prototype_keys_def)
  from assms show "hd k \<noteq> CHR ''#''" by (auto simp: object_prototype_keys_def)
qed

lemma updateEnvFile_line_cases:
  "(updateEnvFile_line inh updates line = line \<and>
      (\<forall>k. line_key line = Some k \<longrightarrow> \<not> js_in k updates))
   \<or> (\<exists>k v. line_key line = Some k \<and> map_of updates k = Some v \<and>
         updateEnvFile_line inh updates line = k @ CHR ''='' # v)
   \<or> (\<exists>k. line_key line = Some k \<and> k \<in> set object_prototype_keys \<and> map_of updates k = None \<and>
         updateEnvFile_line inh updates line = k @ CHR ''='' # inh k)"
proof (cases "line_key line")
  case None
  then show ?thesis by (simp add: updateEnvFile_line_key)
next
  case (Some k)
  show ?thesis
  proof (cases "js_in k updates")
    case False
    with Some show ?thesis by (simp add: updateEnvFile_line_key)
  next
    case True
    show ?thesis
    proof (cases "map_of updates k")
      case None
      then have "k \<notin> fst ` set updates" by (simp add: map_of_eq_None_iff)
      with True have "k \<in> set object_prototype_keys" by (simp add: js_in_def)
      with Some True None show ?thesis by (simp add: updateEnvFile_line_key js_get_def)
    next
      case v: (Some v)
      with Some True show ?thesis by (simp add: updateEnvFile_line_key js_get_def)
    qed
  qed
qed

lemma parse_updateEnvFile_own:
  assumes ok: "\<forall>(k, v) \<in> set updates. env_key_ok k"
    and d: "distinct (map fst updates)"
    and nv: "\<forall>(k, v) \<in> set updates. NL \<notin> set v"
    and ni: "\<forall>k \<in> set object_prototype_keys. NL \<notin> set (inh k)"
    and kv: "map_of updates k = Some v"
    and np: "k \<notin> set object_prototype_keys"
  shows "parseEnvValues (updateEnvFile inh updates file) k = Some (trim v)"
proof -
  let ?lines = "split NL (readEnvFile file)"
  let ?written = "List.map_filter (updateEnvFile_written updates) ?lines"
  let ?app = "map (\<lambda>(k, val). k @ ''='' @ val) (filter (\<lambda>(k, val). k \<notin> set ?written) updates)"
  let ?L = "map (updateEnvFile_line inh updates) ?lines @ ?app"
  have u: "updateEnvFile inh updates file = replace_trailing_newlines (join NL ?L)"
    by (simp add: updateEnvFile_def Let_def)
  from kv have m: "(k, v) \<in> set updates" by (rule map_of_SomeD)
  with ok have k: "env_key_ok k" by auto
  then have p: "k \<noteq> ''__proto__''" by (simp add: env_key_ok_def)
  from m have own: "js_in k updates" by (force simp: js_in_def)
  have app: "\<exists>k' v'. (k', v') \<in> set updates \<and> l = k' @ CHR ''='' # v'" if "l \<in> set ?app" for l
    using that by auto
  have sc: "(\<exists>line \<in> set ?lines. l = updateEnvFile_line inh updates line) \<or> l \<in> set ?app"
    if "l \<in> set ?L" for l
    using that by (simp only: set_append Un_iff set_map image_iff)
  have ne: "?L \<noteq> []" by (simp add: split_not_Nil)
  have nn: "\<forall>l \<in> set ?L. NL \<notin> set l"
  proof
    fix l assume "l \<in> set ?L"
    from sc [OF this] consider line where "line \<in> set ?lines" "l = updateEnvFile_line inh updates line"
      | "l \<in> set ?app" by blast
    then show "NL \<notin> set l"
    proof cases
      case 1
      then have nl: "NL \<notin> set line" by (simp add: split_lines_no_sep)
      from updateEnvFile_line_cases [of inh updates line] show ?thesis
      proof (elim disjE conjE exE)
        assume "updateEnvFile_line inh updates line = line"
        with 1 nl show ?thesis by simp
      next
        fix k' v'
        assume a: "line_key line = Some k'" "map_of updates k' = Some v'"
          "updateEnvFile_line inh updates line = k' @ CHR ''='' # v'"
        from a(1) nl have "NL \<notin> set k'" using line_key_subset by blast
        moreover from a(2) nv have "NL \<notin> set v'" by (auto dest: map_of_SomeD)
        ultimately show ?thesis using 1 a(3) by simp
      next
        fix k'
        assume a: "line_key line = Some k'" "k' \<in> set object_prototype_keys"
          "updateEnvFile_line inh updates line = k' @ CHR ''='' # inh k'"
        from a(1) nl have "NL \<notin> set k'" using line_key_subset by blast
        moreover from a(2) ni have "NL \<notin> set (inh k')" by blast
        ultimately show ?thesis using 1 a(3) by simp
      qed
    next
      case 2
      from app [OF this] obtain k' v' where a: "(k', v') \<in> set updates" "l = k' @ CHR ''='' # v'"
        by blast
      with ok have "env_key_ok k'" by auto
      then have "NL \<notin> set k'" by (simp add: env_key_ok_def)
      moreover from a(1) nv have "NL \<notin> set v'" by auto
      ultimately show ?thesis using a(2) by simp
    qed
  qed
  have f: "parseEnvValues (updateEnvFile inh updates file) = foldl parseEnvValues_line Map.empty ?L"
    unfolding parseEnvValues_def u foldl_parse_replace_trailing split_join_lines [OF ne nn] ..
  have a: "\<forall>l \<in> set ?L. \<forall>w. env_entry l = Some (k, w) \<longrightarrow> w = trim v"
  proof (intro ballI allI impI)
    fix l w
    assume l: "l \<in> set ?L" and e: "env_entry l = Some (k, w)"
    from sc [OF l] consider line where "line \<in> set ?lines" "l = updateEnvFile_line inh updates line"
      | "l \<in> set ?app" by blast
    then show "w = trim v"
    proof cases
      case 1
      from updateEnvFile_line_cases [of inh updates line] show ?thesis
      proof (elim disjE conjE exE)
        assume "updateEnvFile_line inh updates line = line"
          and n: "\<forall>k. line_key line = Some k \<longrightarrow> \<not> js_in k updates"
        with 1 e have "line_key line = Some k" by (simp add: line_key_def)
        with n own show ?thesis by blast
      next
        fix k' v'
        assume b: "line_key line = Some k'" "map_of updates k' = Some v'"
          "updateEnvFile_line inh updates line = k' @ CHR ''='' # v'"
        from b(2) ok have "env_key_ok k'" by (auto dest: map_of_SomeD)
        from env_entry_assignment [OF this, of v'] 1 b(3) e have "k' = k" "w = trim v'" by simp_all
        with b(2) kv show ?thesis by simp
      next
        fix k'
        assume b: "line_key line = Some k'" "k' \<in> set object_prototype_keys"
          "updateEnvFile_line inh updates line = k' @ CHR ''='' # inh k'"
        from inherited_key_entry [OF b(2), of "inh k'"] 1 b(3) e have "k' = k" by simp
        with b(2) np show ?thesis by simp
      qed
    next
      case 2
      from app [OF this] obtain k' v' where b: "(k', v') \<in> set updates" "l = k' @ CHR ''='' # v'"
        by blast
      with ok have "env_key_ok k'" by auto
      from env_entry_assignment [OF this, of v'] b(2) e have "k' = k" "w = trim v'" by simp_all
      moreover from map_of_is_SomeI [OF d b(1)] have "map_of updates k' = Some v'" .
      ultimately show ?thesis using kv by simp
    qed
  qed
  have "k @ CHR ''='' # v \<in> set ?L"
  proof (cases "k \<in> set ?written")
    case True
    then obtain line where l: "line \<in> set ?lines" "line_key line = Some k"
      by (auto simp: set_map_filter updateEnvFile_written_Some)
    with own kv have "updateEnvFile_line inh updates line = k @ CHR ''='' # v"
      by (simp add: updateEnvFile_line_key js_get_def)
    with l(1) show ?thesis by force
  next
    case False
    with m have "(k, v) \<in> set (filter (\<lambda>(k, val). k \<notin> set ?written) updates)" by simp
    then have "k @ ''='' @ v \<in> set ?app" by (force simp del: set_filter)
    then show ?thesis by simp
  qed
  with line_key_assignment [OF k, of v] have b: "\<exists>l \<in> set ?L. line_key l = Some k" by blast
  from foldl_parse_determined [OF a p, of Map.empty] b show ?thesis
    unfolding f by simp
qed

lemma node_inherited_no_newline: "\<forall>k \<in> set object_prototype_keys. NL \<notin> set (node_inherited k)"
  by (simp add: object_prototype_keys_def node_inherited_def)

text \<open>
  C9 (as amended). When the body gives an allow-listed key the empty string, the handler
  applies the update: \<open>process.env\<close> has the empty string for the key, and the \<open>.env\<close>
  file is written with the line \<open>KEY=\<close>. If no string that the body gives to an
  allow-listed key contains a line feed (and the text of the inherited properties has
  none, as in Node), the following \<open>GET\<close> returns the empty string for the key: the
  stored value is cleared. In the settings form, a secret input whose trimmed value is
  empty is passed over, so the form never sends such an update.
\<close>

theorem empty_string_update_applied:
  assumes A: "k \<in> ALLOWED_KEYS" and M: "(k, JStr []) \<in> set es" and D: "distinct (map fst es)"
  shows "process_env (snd (router_post inh (Some (JObj es)) srv)) k = Some []
       \<and> (\<exists>content. env_file (snd (router_post inh (Some (JObj es)) srv)) = Some content \<and>
             k @ ''='' \<in> set (split NL content))
       \<and> ((\<forall>(k', v) \<in> set es. k' \<in> ALLOWED_KEYS \<longrightarrow> (\<forall>s. v = JStr s \<longrightarrow> NL \<notin> set s)) \<and>
           (\<forall>k' \<in> set object_prototype_keys. NL \<notin> set (inh k'))
           \<longrightarrow> (\<forall>f r. (f, r) \<in> set (router_get (snd (router_post inh (Some (JObj es)) srv))) \<and>
                  key f = k \<longrightarrow> r = []))
       \<and> (trim v = [] \<longrightarrow>
            save_input settings updates \<lparr>data_key = dk, data_type = Secret, input_value = v\<rparr>
              = updates)"
proof -
  obtain fl rn env where f:
    "foldl router_post_entry ([], False, process_env srv) es = (fl, rn, env)"
    by (cases "foldl router_post_entry ([], False, process_env srv) es") auto
  from foldl_router_post_entry_applied [OF D M A, of "([], False, process_env srv)"] f
  have mk: "map_of fl k = Some []" and ek: "env k = Some []" by (simp_all add: env_text_def)
  from mk have ne: "fl \<noteq> []" by auto
  let ?new = "updateEnvFile inh fl (env_file srv)"
  have post: "snd (router_post inh (Some (JObj es)) srv)
      = srv\<lparr>env_file := Some ?new, process_env := env\<rparr>"
    using f ne by (simp add: router_post_def)
  from A have kok: "env_key_ok k" by (rule allowed_key_ok)
  then have knl: "NL \<notin> set k" by (simp add: env_key_ok_def)
  have 1: "process_env (snd (router_post inh (Some (JObj es)) srv)) k = Some []"
    unfolding post using ek by simp
  have "k @ ''='' @ [] \<in> set (split NL ?new)"
    using mk knl by (intro updateEnvFile_writes_line) simp_all
  then have 2: "\<exists>content. env_file (snd (router_post inh (Some (JObj es)) srv)) = Some content \<and>
             k @ ''='' \<in> set (split NL content)"
    unfolding post by simp
  have 3: "(\<forall>(k', v) \<in> set es. k' \<in> ALLOWED_KEYS \<longrightarrow> (\<forall>s. v = JStr s \<longrightarrow> NL \<notin> set s)) \<and>
           (\<forall>k' \<in> set object_prototype_keys. NL \<notin> set (inh k'))
           \<longrightarrow> (\<forall>f r. (f, r) \<in> set (router_get (snd (router_post inh (Some (JObj es)) srv))) \<and>
                  key f = k \<longrightarrow> r = [])"
  proof (intro impI allI, elim conjE)
    fix fd r
    assume B: "\<forall>(k', v) \<in> set es. k' \<in> ALLOWED_KEYS \<longrightarrow> (\<forall>s. v = JStr s \<longrightarrow> NL \<notin> set s)"
      and I: "\<forall>k' \<in> set object_prototype_keys. NL \<notin> set (inh k')"
      and g: "(fd, r) \<in> set (router_get (snd (router_post inh (Some (JObj es)) srv)))"
      and kf: "key fd = k"
    from foldl_router_post_entry_filtered [of "([], False, process_env srv)" "set es" es] f
    have fd: "distinct (map fst fl)" and fa: "fst ` set fl \<subseteq> ALLOWED_KEYS"
      and fe: "\<forall>(k', s) \<in> set fl. (k', JStr s) \<in> set es" by simp_all
    have K: "\<forall>(k', s) \<in> set fl. env_key_ok k'"
      using fa allowed_key_ok by force
    have N: "\<forall>(k', s) \<in> set fl. NL \<notin> set s"
    proof clarify
      fix k' s assume m: "(k', s) \<in> set fl" and n: "NL \<in> set s"
      from m fe have "(k', JStr s) \<in> set es" by auto
      moreover from m fa have "k' \<in> ALLOWED_KEYS" by force
      ultimately have "NL \<notin> set s" using B by auto
      with n show False by simp
    qed
    from A have np: "k \<notin> set object_prototype_keys" by (rule allowed_key_not_inherited)
    from parse_updateEnvFile_own [OF K fd N I mk np, of "env_file srv"]
    have p: "parseEnvValues ?new k = Some []" by (simp add: trim_Nil)
    from g have r: "r = (if type fd = Secret
        then maskSecret (js_or (parseEnvValues ?new (key fd)) (js_or (env (key fd)) []))
        else js_nullish (parseEnvValues ?new (key fd)) (js_nullish (env (key fd)) []))"
      unfolding post by (auto simp: router_get_def Let_def readEnvFile_def)
    show "r = []"
      unfolding r kf p ek by (simp add: js_or_def js_nullish_def maskSecret_def)
  qed
  have 4: "trim v = [] \<longrightarrow>
            save_input settings updates \<lparr>data_key = dk, data_type = Secret, input_value = v\<rparr>
              = updates"
    by (simp add: save_input_def)
  from 1 2 3 4 show ?thesis by blast
qed

theorem empty_string_update_applied_witness:
  "process_env (snd (router_post node_inherited (Some (JObj [(''ANTHROPIC_API_KEY'', JStr [])]))
       \<lparr>env_file = Some (''toString=x'' @ [NL] @ ''ANTHROPIC_API_KEY=sk-test-1234''),
        process_env = [''ANTHROPIC_API_KEY'' \<mapsto> ''sk-test-1234'']\<rparr>)) ''ANTHROPIC_API_KEY'' = Some []
   \<and> ''ANTHROPIC_API_KEY='' \<in> set (split NL (the (env_file (snd (router_post node_inherited
         (Some (JObj [(''ANTHROPIC_API_KEY'', JStr [])]))
       \<lparr>env_file = Some (''toString=x'' @ [NL] @ ''ANTHROPIC_API_KEY=sk-test-1234''),
        process_env = [''ANTHROPIC_API_KEY'' \<mapsto> ''sk-test-1234'']\<rparr>)))))
   \<and> snd (hd (router_get (snd (router_post node_inherited (Some (JObj [(''ANTHROPIC_API_KEY'', JStr [])]))
          \<lparr>env_file = Some (''toString=x'' @ [NL] @ ''ANTHROPIC_API_KEY=sk-test-1234''),
           process_env = [''ANTHROPIC_API_KEY'' \<mapsto> ''sk-test-1234'']\<rparr>)))) = []
   \<and> save_input [] [] \<lparr>data_key = ''ANTHROPIC_API_KEY'', data_type = Secret, input_value = ''  ''\<rparr> = []"
proof -
  let ?es = "[(''ANTHROPIC_API_KEY'', JStr [])]"
  let ?srv = "\<lparr>env_file = Some (''toString=x'' @ [NL] @ ''ANTHROPIC_API_KEY=sk-test-1234''),
        process_env = [''ANTHROPIC_API_KEY'' \<mapsto> ''sk-test-1234'']\<rparr>"
  have A: "''ANTHROPIC_API_KEY'' \<in> ALLOWED_KEYS" by (simp add: ALLOWED_KEYS_def SETTINGS_SCHEMA_def)
  have M: "(''ANTHROPIC_API_KEY'', JStr []) \<in> set ?es" by simp
  have D: "distinct (map fst ?es)" by simp
  have B: "\<forall>(k', v) \<in> set ?es. k' \<in> ALLOWED_KEYS \<longrightarrow> (\<forall>s. v = JStr s \<longrightarrow> NL \<notin> set s)" by simp
  have T: "trim ''  '' = []" by (simp add: trim_def is_ws_def)
  let ?get = "router_get (snd (router_post node_inherited (Some (JObj ?es)) ?srv))"
  have G: "(fst (hd ?get), snd (hd ?get)) \<in> set ?get"
    "key (fst (hd ?get)) = ''ANTHROPIC_API_KEY''"
    by (simp_all add: router_get_def SETTINGS_SCHEMA_def Let_def)
  note th = empty_string_update_applied
    [OF A M D, of node_inherited ?srv "''  ''" "[]" "[]" "''ANTHROPIC_API_KEY''"]
  note c1 = th [THEN conjunct1]
  from th [THEN conjunct2, THEN conjunct1] obtain content where
    e: "env_file (snd (router_post node_inherited (Some (JObj ?es)) ?srv)) = Some content"
    and m: "''ANTHROPIC_API_KEY'' @ ''='' \<in> set (split NL content)" by blast
  from e have "the (env_file (snd (router_post node_inherited (Some (JObj ?es)) ?srv))) = content"
    by simp
  with m have c2: "''ANTHROPIC_API_KEY='' \<in> set (split NL
      (the (env_file (snd (router_post node_inherited (Some (JObj ?es)) ?srv)))))"
    by simp
  note c3 = th [THEN conjunct2, THEN conjunct2, THEN conjunct1, THEN mp,
    OF conjI, OF B node_inherited_no_newline, rule_format, OF conjI, OF G]
  note c4 = th [THEN conjunct2, THEN conjunct2, THEN conjunct2, THEN mp, OF T]
  from c1 c2 c3 c4 show ?thesis by (intro conjI)
qed

text \<open>
  The claim as first stated fails when another value of the same body contains a line
  feed: the file has no quoting, the value writes a further line for the key, and the
  following \<open>GET\<close> shows that line's value instead of an empty one.
\<close>

theorem empty_string_update_applied_counterexample:
  "(\<lparr>key = ''ANTHROPIC_API_KEY'', label = ''Anthropic API Key'', type = Secret, restart = False\<rparr>,
     ''****evil'')
   \<in> set (router_get (snd (router_post node_inherited
        (Some (JObj [(''ANTHROPIC_API_KEY'', JStr []),
                     (''PORT'', JStr (''1'' @ [NL] @ ''ANTHROPIC_API_KEY=evil''))]))
        \<lparr>env_file = None, process_env = Map.empty\<rparr>)))"
proof -
  have a: "''ANTHROPIC_API_KEY'' \<in> ALLOWED_KEYS" "''PORT'' \<in> ALLOWED_KEYS"
    by (simp_all add: ALLOWED_KEYS_def SETTINGS_SCHEMA_def)
  have f: "env_file (snd (router_post node_inherited
        (Some (JObj [(''ANTHROPIC_API_KEY'', JStr []),
                     (''PORT'', JStr (''1'' @ [NL] @ ''ANTHROPIC_API_KEY=evil''))]))
        \<lparr>env_file = None, process_env = Map.empty\<rparr>))
      = Some ([NL] @ ''ANTHROPIC_API_KEY='' @ [NL] @ ''PORT=1'' @ [NL] @ ''ANTHROPIC_API_KEY=evil'' @ [NL])"
    using a by (simp add: router_post_def router_post_entry_def obj_set_def env_eval)
  have p: "parseEnvValues ([NL] @ ''ANTHROPIC_API_KEY='' @ [NL] @ ''PORT=1'' @ [NL] @
        ''ANTHROPIC_API_KEY=evil'' @ [NL]) ''ANTHROPIC_API_KEY'' = Some ''evil''"
    by (simp add: env_eval)
  show ?thesis
    using f p
    by (simp add: router_get_def SETTINGS_SCHEMA_def Let_def readEnvFile_def js_or_def maskSecret_def)
qed

section \<open>The settings scenario\<close>

text \<open>
  The scenario of the specification, from any server whose \<open>.env\<close> file has no key naming
  an inherited property: after \<open>POST\<close> of \<open>{ANTHROPIC_API_KEY: "sk-test-1234"}\<close> the
  following \<open>GET\<close> returns the field masked as \<open>****1234\<close>.
\<close>

lemma post_then_get_masked:
  assumes "\<forall>line \<in> set (split NL (readEnvFile (env_file srv))). \<forall>k.
             line_key line = Some k \<longrightarrow> k \<notin> set object_prototype_keys"
  shows "(\<lparr>key = ''ANTHROPIC_API_KEY'', label = ''Anthropic API Key'', type = Secret, restart = False\<rparr>,
          ''****1234'')
         \<in> set (router_get (snd (router_post inh
               (Some (JObj [(''ANTHROPIC_API_KEY'', JStr ''sk-test-1234'')])) srv)))"
proof -
  let ?k = "''ANTHROPIC_API_KEY''"
  let ?u = "[(?k, ''sk-test-1234'')]"
  let ?new = "updateEnvFile inh ?u (env_file srv)"
  have A: "?k \<in> ALLOWED_KEYS" by (simp add: ALLOWED_KEYS_def SETTINGS_SCHEMA_def)
  then have post: "snd (router_post inh (Some (JObj [(?k, JStr ''sk-test-1234'')])) srv)
      = srv\<lparr>env_file := Some ?new, process_env := (process_env srv)(?k \<mapsto> ''sk-test-1234'')\<rparr>"
    by (simp add: router_post_def router_post_entry_def obj_set_def env_text_def)
  have K: "\<forall>(k, s) \<in> set ?u. env_key_ok k" using allowed_key_ok [OF A] by simp
  then have N: "\<forall>(k, s) \<in> set ?u. NL \<notin> set k \<and> NL \<notin> set s" by (simp add: env_key_ok_def)
  have H: "\<forall>line \<in> set (split NL (readEnvFile (env_file srv))). \<forall>k. line_key line = Some k \<longrightarrow>
              k \<in> set object_prototype_keys \<longrightarrow> k \<in> fst ` set ?u"
    using assms by blast
  have "parseEnvValues ?new ?k = Some (trim ''sk-test-1234'')"
    unfolding parseEnvValues_updateEnvFile [OF N H]
    using K by (rule parse_written_updated) simp_all
  then have p: "parseEnvValues ?new ?k = Some ''sk-test-1234''" by (simp add: trim_def is_ws_def)
  show ?thesis
    unfolding post
    by (simp add: router_get_def SETTINGS_SCHEMA_def Let_def readEnvFile_def p js_or_def maskSecret_def)
qed

end
